theory Spec2Isabelle
  imports Complex_Main "HOL-Library.AList" "HOL-Library.Word"
begin

section \<open>The concurrent variant: Node64, Graph64\<close>

text \<open>
  Numbers. The source computes with float64; the properties verified here are properties
  "under exact arithmetic", so a float64 is a \<open>real\<close> and the rounding of the machine is
  not modelled. External node identifiers are uint64, a \<open>64 word\<close>. Dense indices and
  \<open>count\<close> are Go \<open>uint\<close>; they are bounded by the length of the node slice, which
  can never reach \<open>2 ^ 64\<close> entries, so they are \<open>nat\<close>.

  Maps. A Go map is an association list with distinct keys; a new key is appended, the value of
  an existing key is replaced in place (\<open>AList.update\<close>). \<open>range\<close> over the map walks the
  list from its head: the order Go picks is unspecified, and under exact arithmetic the sums
  computed below do not depend on it. A nil map and an empty map both are \<open>[]\<close>: the source
  only reads or ranges over a nil map, which behaves as an empty one.

  Panics. An index expression \<open>g.nodes[i]\<close> with \<open>i\<close> out of range panics; it is the
  error \<open>IndexOutOfRange\<close>. The sequential variant dereferences the \<open>*node\<close> stored in a
  map; a missing key gives a nil pointer and the dereference panics: \<open>NilDereference\<close>.
\<close>

datatype error = IndexOutOfRange | NilDereference

record Node64 =
  weight :: "real \<times> real"
  outbound :: real
  edges :: "(nat \<times> real) list"

record Graph64 =
  Verbose :: bool
  count :: nat
  index :: "(64 word \<times> nat) list"
  nodes :: "Node64 list"

text \<open>The zero value \<open>Node64{}\<close>.\<close>

definition Node64_zero :: Node64 where
  "Node64_zero = \<lparr>weight = (0, 0), outbound = 0, edges = []\<rparr>"

text \<open>\<open>NewGraph64\<close>: the optional size only pre-sizes the storage.\<close>

definition NewGraph64 :: Graph64 where
  "NewGraph64 = \<lparr>Verbose = False, count = 0, index = [], nodes = []\<rparr>"

text \<open>\<open>m[k]\<close> on a map with float64 values: the zero value when the key is missing.\<close>

definition edge_weight :: "('k \<times> real) list \<Rightarrow> 'k \<Rightarrow> real" where
  "edge_weight es t = (case map_of es t of Some w \<Rightarrow> w | None \<Rightarrow> 0)"

text \<open>\<open>g.index[id]\<close> with the comma-ok form; a missing identifier gets the next dense
  index and a fresh zero node (lines 42-48 and 52-58 of the source).\<close>

definition lookup_or_append :: "64 word \<Rightarrow> Graph64 \<Rightarrow> nat \<times> Graph64" where
  "lookup_or_append k g =
     (case map_of (index g) k of
        Some i \<Rightarrow> (i, g)
      | None \<Rightarrow> (count g,
          g\<lparr>index := AList.update k (count g) (index g),
            nodes := nodes g @ [Node64_zero],
            count := count g + 1\<rparr>))"

definition Link :: "64 word \<Rightarrow> 64 word \<Rightarrow> real \<Rightarrow> Graph64 \<Rightarrow> error + Graph64" where
  "Link source target w g =
     (let (s, g1) = lookup_or_append source g in
      if \<not> s < length (nodes g1) then Inl IndexOutOfRange
      else
        let n1 = nodes g1 ! s;
            g2 = g1\<lparr>nodes := (nodes g1)[s := n1\<lparr>outbound := outbound n1 + w\<rparr>]\<rparr>;
            (t, g3) = lookup_or_append target g2;
            n3 = nodes g3 ! s
        in Inr (g3\<lparr>nodes := (nodes g3)[s := n3\<lparr>edges :=
                   AList.update t (edge_weight (edges n3) t + w) (edges n3)\<rparr>]\<rparr>))"

text \<open>A sequence of \<open>Link\<close> calls, stopping at the first panic.\<close>

fun Links :: "(64 word \<times> 64 word \<times> real) list \<Rightarrow> Graph64 \<Rightarrow> error + Graph64" where
  "Links [] g = Inr g"
| "Links ((source, target, w) # ls) g =
     (case Link source target w g of Inl e \<Rightarrow> Inl e | Inr g' \<Rightarrow> Links ls g')"

subsection \<open>Rank\<close>

text \<open>\<open>node.weight[i]\<close> for the slot variables \<open>a\<close> and \<open>b\<close> of \<open>Rank\<close>, which only ever
  hold 0 and 1.\<close>

definition wget :: "nat \<Rightarrow> Node64 \<Rightarrow> real" where
  "wget i node = (if i = 0 then fst (weight node) else snd (weight node))"

definition wset :: "nat \<Rightarrow> real \<Rightarrow> Node64 \<Rightarrow> Node64" where
  "wset i v node =
     (if i = 0 then node\<lparr>weight := (v, snd (weight node))\<rparr>
      else node\<lparr>weight := (fst (weight node), v)\<rparr>)"

text \<open>The closure \<open>normalize\<close> (lines 82-89). The worker pool runs it once on every node and
  waits for all of them; each run touches its own node only, so the pass is a \<open>map\<close>.
  The pool keeps at most \<open>NumCPU\<close> units in flight; \<open>NumCPU\<close> is declared outside
  these two files and is taken to be at least 1, so that every unit is started. What
  \<open>Verbose\<close> prints is not part of the model.\<close>

definition normalize :: "Node64 \<Rightarrow> Node64" where
  "normalize node =
     (if outbound node > 0
      then node\<lparr>edges := map (\<lambda>(target, w). (target, w / outbound node)) (edges node)\<rparr>
      else node)"

text \<open>The variables of the loop of \<open>Rank\<close>: the node slice, the slots \<open>a\<close> and \<open>b\<close>,
  \<open>\<Delta>\<close> and \<open>leak\<close>.\<close>

record rank_state =
  st_nodes :: "Node64 list"
  st_a :: nat
  st_b :: nat
  st_Delta :: real
  st_leak :: real

text \<open>Lines 73 and 110-119: \<open>\<Delta> = 1\<close>, \<open>a, b = 0, 1\<close>, every \<open>weight[a]\<close> set to
  \<open>inverse\<close>, and \<open>leak\<close> summing \<open>inverse\<close> over the nodes whose outbound is 0.\<close>

definition initialize :: "real \<Rightarrow> Node64 list \<Rightarrow> rank_state" where
  "initialize invN ns =
     \<lparr>st_nodes = map (wset 0 invN) ns, st_a = 0, st_b = 1, st_Delta = 1,
      st_leak = foldl (\<lambda>leak node. if outbound node = 0 then leak + invN else leak) 0 ns\<rparr>"

text \<open>The inner loop of \<open>update\<close> (lines 125-129): \<open>nodes[target].weight[b] += aa * weight\<close>
  for every edge of the node; \<open>nodes[target]\<close> panics when \<open>target\<close> is out of range.\<close>

fun push :: "nat \<Rightarrow> real \<Rightarrow> (nat \<times> real) list \<Rightarrow> Node64 list \<Rightarrow> error + Node64 list" where
  "push b aa [] ns = Inr ns"
| "push b aa ((target, w) # es) ns =
     (if target < length ns
      then push b aa es (ns[target := wset b (wget b (ns ! target) + aa * w) (ns ! target)])
      else Inl IndexOutOfRange)"

text \<open>The closure \<open>update\<close> (lines 121-135) on node \<open>i\<close>. The node locks make every
  \<open>+=\<close> atomic; the units of one pass are run here one after the other, in index order.\<close>

definition update :: "real \<Rightarrow> nat \<Rightarrow> nat \<Rightarrow> real \<Rightarrow> nat \<Rightarrow> Node64 list \<Rightarrow> error + Node64 list" where
  "update \<alpha> a b adjustment i ns =
     (let node = ns ! i;
          aa = \<alpha> * wget a node
      in case push b aa (edges node) ns of
           Inl e \<Rightarrow> Inl e
         | Inr ns' \<Rightarrow> Inr (ns'[i := wset b (wget b (ns' ! i) + adjustment) (ns' ! i)]))"

fun update_pass :: "real \<Rightarrow> nat \<Rightarrow> nat \<Rightarrow> real \<Rightarrow> nat list \<Rightarrow> Node64 list \<Rightarrow> error + Node64 list" where
  "update_pass \<alpha> a b adjustment [] ns = Inr ns"
| "update_pass \<alpha> a b adjustment (i # is) ns =
     (case update \<alpha> a b adjustment i ns of
        Inl e \<Rightarrow> Inl e
      | Inr ns' \<Rightarrow> update_pass \<alpha> a b adjustment is ns')"

text \<open>Line 140.\<close>

definition adjustment_of :: "real \<Rightarrow> real \<Rightarrow> real \<Rightarrow> real" where
  "adjustment_of \<alpha> invN leak = (1 - \<alpha>) * invN + \<alpha> * leak * invN"

text \<open>Lines 161-175, one accumulator at a time: the new \<open>\<Delta>\<close>, the new \<open>leak\<close>, and the
  zeroing of slot \<open>a\<close>.\<close>

definition delta_of :: "nat \<Rightarrow> nat \<Rightarrow> Node64 list \<Rightarrow> real" where
  "delta_of a b ns =
     foldl (\<lambda>\<Delta> node.
              let aa = wget a node; bb = wget b node; difference = aa - bb
              in if difference < 0 then \<Delta> - difference else \<Delta> + difference) 0 ns"

definition leak_of :: "nat \<Rightarrow> Node64 list \<Rightarrow> real" where
  "leak_of b ns = foldl (\<lambda>leak node. if outbound node = 0 then leak + wget b node else leak) 0 ns"

text \<open>One turn of the loop body (lines 137-181), ending with \<open>a, b = b, a\<close>.\<close>

definition iteration :: "real \<Rightarrow> real \<Rightarrow> rank_state \<Rightarrow> error + rank_state" where
  "iteration \<alpha> invN st =
     (let adjustment = adjustment_of \<alpha> invN (st_leak st);
          a = st_a st; b = st_b st
      in case update_pass \<alpha> a b adjustment [0..<length (st_nodes st)] (st_nodes st) of
           Inl e \<Rightarrow> Inl e
         | Inr ns \<Rightarrow>
             Inr \<lparr>st_nodes = map (wset a 0) ns, st_a = b, st_b = a,
                  st_Delta = delta_of a b ns, st_leak = leak_of b ns\<rparr>)"

text \<open>The loop \<open>for \<Delta> > \<epsilon>\<close>. It need not end, so it takes fuel, the number of turns it
  may make: \<open>None\<close> is the loop still running when the fuel is used up, \<open>Some (Inl e)\<close> a
  panic, \<open>Some (Inr st)\<close> the state at the exit.\<close>

fun rank_loop :: "nat \<Rightarrow> real \<Rightarrow> real \<Rightarrow> real \<Rightarrow> rank_state \<Rightarrow> (error + rank_state) option" where
  "rank_loop 0 \<alpha> \<epsilon> invN st = (if st_Delta st > \<epsilon> then None else Some (Inr st))"
| "rank_loop (Suc fuel) \<alpha> \<epsilon> invN st =
     (if st_Delta st > \<epsilon>
      then (case iteration \<alpha> invN st of
              Inl e \<Rightarrow> Some (Inl e)
            | Inr st' \<Rightarrow> rank_loop fuel \<alpha> \<epsilon> invN st')
      else Some (Inr st))"

text \<open>Lines 184-186: the calls of the callback, in the order of the index.\<close>

fun emit :: "nat \<Rightarrow> Node64 list \<Rightarrow> (64 word \<times> nat) list \<Rightarrow> error + (64 word \<times> real) list" where
  "emit a ns [] = Inr []"
| "emit a ns ((key, v) # ix) =
     (if v < length ns
      then (case emit a ns ix of
              Inl e \<Rightarrow> Inl e
            | Inr calls \<Rightarrow> Inr ((key, wget a (ns ! v)) # calls))
      else Inl IndexOutOfRange)"

text \<open>\<open>Rank\<close> after line 75, for a given value of \<open>inverse\<close>. It returns the graph, whose
  node slice it has rewritten in place, and the calls made to the callback.\<close>

definition Rank_from ::
  "real \<Rightarrow> nat \<Rightarrow> real \<Rightarrow> real \<Rightarrow> Graph64 \<Rightarrow> (error + Graph64 \<times> (64 word \<times> real) list) option" where
  "Rank_from invN fuel \<alpha> \<epsilon> g =
     (case rank_loop fuel \<alpha> \<epsilon> invN (initialize invN (map normalize (nodes g))) of
        None \<Rightarrow> None
      | Some (Inl e) \<Rightarrow> Some (Inl e)
      | Some (Inr st) \<Rightarrow>
          (case emit (st_a st) (st_nodes st) (index g) of
             Inl e \<Rightarrow> Some (Inl e)
           | Inr calls \<Rightarrow> Some (Inr (g\<lparr>nodes := st_nodes st\<rparr>, calls))))"

text \<open>Line 75: \<open>inverse := 1 / float64(len(nodes))\<close>. A float64 division by zero does not
  panic in Go (the quotient is an infinity), so the division has no error branch; with no node
  the quotient is never stored or passed to the callback (see \<open>Rank_from\<close> on the empty graph
  below, for every value of \<open>inverse\<close>).\<close>

definition Rank ::
  "nat \<Rightarrow> real \<Rightarrow> real \<Rightarrow> Graph64 \<Rightarrow> (error + Graph64 \<times> (64 word \<times> real) list) option" where
  "Rank fuel \<alpha> \<epsilon> g = Rank_from (1 / real (length (nodes g))) fuel \<alpha> \<epsilon> g"

text \<open>\<open>Reset\<close> (lines 190-198): the optional size only pre-sizes the storage.\<close>

definition Reset :: "Graph64 \<Rightarrow> Graph64" where
  "Reset g = g\<lparr>count := 0, index := [], nodes := []\<rparr>"

section \<open>The sequential variant: node, Graph\<close>

text \<open>
  \<open>Graph\<close> keys both maps by the external identifier, a Go \<open>int\<close>; only equality of
  identifiers is used, so an identifier is the same \<open>64 word\<close> as in \<open>Graph64\<close>. The map
  \<open>nodes\<close> holds a pointer to a node of its own for every key, so it is an association list
  from identifiers to node values; \<open>self.nodes[k].f\<close> on a missing key dereferences nil.
\<close>

record node =
  weight_s :: real
  outbound_s :: real

record Graph =
  edges_s :: "(64 word \<times> (64 word \<times> real) list) list"
  nodes_s :: "(64 word \<times> node) list"

definition New :: Graph where
  "New = \<lparr>edges_s = [], nodes_s = []\<rparr>"

definition node_zero :: node where
  "node_zero = \<lparr>weight_s = 0, outbound_s = 0\<rparr>"

text \<open>\<open>self.edges[source]\<close> read as a map: nil, so empty, when the key is missing.\<close>

definition edges_of :: "(64 word \<times> (64 word \<times> real) list) list \<Rightarrow> 64 word \<Rightarrow> (64 word \<times> real) list" where
  "edges_of es source = (case map_of es source of None \<Rightarrow> [] | Some m \<Rightarrow> m)"

text \<open>\<open>Graph.Link\<close> (lines 30-52 of pagerank.go). Every key is stored before the node or
  the edge map under it is written, so no step can panic.\<close>

definition Graph_Link :: "64 word \<Rightarrow> 64 word \<Rightarrow> real \<Rightarrow> Graph \<Rightarrow> Graph" where
  "Graph_Link source target w self =
     (let nodes1 = (case map_of (nodes_s self) source of
                      None \<Rightarrow> AList.update source node_zero (nodes_s self)
                    | Some _ \<Rightarrow> nodes_s self);
          nodes2 = AList.map_entry source (\<lambda>n. n\<lparr>outbound_s := outbound_s n + w\<rparr>) nodes1;
          nodes3 = (case map_of nodes2 target of
                      None \<Rightarrow> AList.update target node_zero nodes2
                    | Some _ \<Rightarrow> nodes2);
          edges1 = (case map_of (edges_s self) source of
                      None \<Rightarrow> AList.update source [] (edges_s self)
                    | Some _ \<Rightarrow> edges_s self);
          edges2 = AList.map_entry source
                     (\<lambda>m. AList.update target (edge_weight m target + w) m) edges1
      in self\<lparr>edges_s := edges2, nodes_s := nodes3\<rparr>)"

fun Graph_Links :: "(64 word \<times> 64 word \<times> real) list \<Rightarrow> Graph \<Rightarrow> Graph" where
  "Graph_Links [] self = self"
| "Graph_Links ((source, target, w) # ls) self = Graph_Links ls (Graph_Link source target w self)"

text \<open>The normalization loop of \<open>Graph.Rank\<close> (lines 64-70), over the entries of
  \<open>self.edges\<close>; \<open>self.nodes[source].outbound\<close> dereferences the node of the source.\<close>

fun normalize_s ::
  "(64 word \<times> node) list \<Rightarrow> (64 word \<times> (64 word \<times> real) list) list \<Rightarrow>
   error + (64 word \<times> (64 word \<times> real) list) list" where
  "normalize_s ns [] = Inr []"
| "normalize_s ns ((source, m) # rest) =
     (case map_of ns source of
        None \<Rightarrow> Inl NilDereference
      | Some n \<Rightarrow>
          (case normalize_s ns rest of
             Inl e \<Rightarrow> Inl e
           | Inr rest' \<Rightarrow>
               Inr ((source, if outbound_s n > 0
                             then map (\<lambda>(target, w). (target, w / outbound_s n)) m
                             else m) # rest')))"

text \<open>The inner loop of line 93-95 for one source: \<open>c\<close> is \<open>\<alpha> * nodes[source]\<close>, and the
  weight read from \<open>self.edges[source][target]\<close> is the one of the entry being visited.\<close>

fun push_s :: "real \<Rightarrow> (64 word \<times> real) list \<Rightarrow> (64 word \<times> node) list \<Rightarrow> error + (64 word \<times> node) list" where
  "push_s c [] ns = Inr ns"
| "push_s c ((target, w) # m) ns =
     (case map_of ns target of
        None \<Rightarrow> Inl NilDereference
      | Some _ \<Rightarrow>
          push_s c m (AList.map_entry target (\<lambda>n. n\<lparr>weight_s := weight_s n + c * w\<rparr>) ns))"

text \<open>The body of the loop over \<open>self.nodes\<close> of lines 92-98 for one source; \<open>old\<close> is the
  local map \<open>nodes\<close> of the source, the ranks before this turn.\<close>

definition update_s ::
  "real \<Rightarrow> real \<Rightarrow> (64 word \<times> real) list \<Rightarrow> (64 word \<times> (64 word \<times> real) list) list \<Rightarrow>
   64 word \<Rightarrow> (64 word \<times> node) list \<Rightarrow> error + (64 word \<times> node) list" where
  "update_s \<alpha> adjustment old es source ns =
     (case push_s (\<alpha> * edge_weight old source) (edges_of es source) ns of
        Inl e \<Rightarrow> Inl e
      | Inr ns' \<Rightarrow>
          Inr (AList.map_entry source (\<lambda>n. n\<lparr>weight_s := weight_s n + adjustment\<rparr>) ns'))"

fun pass_s ::
  "real \<Rightarrow> real \<Rightarrow> (64 word \<times> real) list \<Rightarrow> (64 word \<times> (64 word \<times> real) list) list \<Rightarrow>
   64 word list \<Rightarrow> (64 word \<times> node) list \<Rightarrow> error + (64 word \<times> node) list" where
  "pass_s \<alpha> adjustment old es [] ns = Inr ns"
| "pass_s \<alpha> adjustment old es (source # keys) ns =
     (case update_s \<alpha> adjustment old es source ns of
        Inl e \<Rightarrow> Inl e
      | Inr ns' \<Rightarrow> pass_s \<alpha> adjustment old es keys ns')"

text \<open>One turn of the loop of \<open>Graph.Rank\<close> (lines 77-104) on the node map; it returns the
  node map and the new \<open>\<Delta>\<close>.\<close>

definition iteration_s ::
  "real \<Rightarrow> real \<Rightarrow> (64 word \<times> (64 word \<times> real) list) list \<Rightarrow> (64 word \<times> node) list \<Rightarrow>
   error + (64 word \<times> node) list \<times> real" where
  "iteration_s \<alpha> invN es ns =
     (let old = map (\<lambda>(key, n). (key, weight_s n)) ns;
          leak = foldl (\<lambda>leak (key, n). if outbound_s n = 0 then leak + weight_s n else leak) 0 ns;
          zeroed = map (\<lambda>(key, n). (key, n\<lparr>weight_s := 0\<rparr>)) ns;
          leak' = leak * \<alpha>
      in case pass_s \<alpha> ((1 - \<alpha>) * invN + leak' * invN) old es (map fst zeroed) zeroed of
           Inl e \<Rightarrow> Inl e
         | Inr ns' \<Rightarrow>
             Inr (ns', foldl (\<lambda>\<Delta> (key, n). \<Delta> + \<bar>weight_s n - edge_weight old key\<bar>) 0 ns'))"

fun loop_s ::
  "nat \<Rightarrow> real \<Rightarrow> real \<Rightarrow> real \<Rightarrow> (64 word \<times> (64 word \<times> real) list) list \<Rightarrow>
   (64 word \<times> node) list \<times> real \<Rightarrow> (error + (64 word \<times> node) list \<times> real) option" where
  "loop_s 0 \<alpha> \<epsilon> invN es (ns, \<Delta>) = (if \<Delta> > \<epsilon> then None else Some (Inr (ns, \<Delta>)))"
| "loop_s (Suc fuel) \<alpha> \<epsilon> invN es (ns, \<Delta>) =
     (if \<Delta> > \<epsilon>
      then (case iteration_s \<alpha> invN es ns of
              Inl e \<Rightarrow> Some (Inl e)
            | Inr st' \<Rightarrow> loop_s fuel \<alpha> \<epsilon> invN es st')
      else Some (Inr (ns, \<Delta>)))"

text \<open>\<open>Graph.Rank\<close>, with fuel for its loop as \<open>Rank\<close> above: the graph it leaves and the
  calls of the callback, in the order of the node map.\<close>

definition Graph_Rank ::
  "nat \<Rightarrow> real \<Rightarrow> real \<Rightarrow> Graph \<Rightarrow> (error + Graph \<times> (64 word \<times> real) list) option" where
  "Graph_Rank fuel \<alpha> \<epsilon> self =
     (let invN = 1 / real (length (nodes_s self))
      in case normalize_s (nodes_s self) (edges_s self) of
           Inl e \<Rightarrow> Some (Inl e)
         | Inr es \<Rightarrow>
             (case loop_s fuel \<alpha> \<epsilon> invN es
                     (map (\<lambda>(key, n). (key, n\<lparr>weight_s := invN\<rparr>)) (nodes_s self), 1) of
                None \<Rightarrow> None
              | Some (Inl e) \<Rightarrow> Some (Inl e)
              | Some (Inr (ns, \<Delta>)) \<Rightarrow>
                  Some (Inr (self\<lparr>edges_s := es, nodes_s := ns\<rparr>,
                             map (\<lambda>(key, n). (key, weight_s n)) ns))))"

section \<open>Observations and invariants\<close>

text \<open>What a caller can observe of a graph by external identifier: the outbound total of a
  node and the stored weight of an edge, 0 where the node or the edge is missing.\<close>

definition outbound_of :: "Graph64 \<Rightarrow> 64 word \<Rightarrow> real" where
  "outbound_of g k = (case map_of (index g) k of None \<Rightarrow> 0 | Some i \<Rightarrow> outbound (nodes g ! i))"

definition edge_of :: "Graph64 \<Rightarrow> 64 word \<Rightarrow> 64 word \<Rightarrow> real" where
  "edge_of g source target =
     (case map_of (index g) source of
        None \<Rightarrow> 0
      | Some s \<Rightarrow> (case map_of (index g) target of
                    None \<Rightarrow> 0
                  | Some t \<Rightarrow> edge_weight (edges (nodes g ! s)) t))"

text \<open>The structural invariant of \<open>Link\<close>: \<open>count\<close> is the length of the node slice, the
  index maps distinct identifiers to \<open>0, 1, ..., count - 1\<close> in the order of their first
  appearance, and every edge map has distinct keys below \<open>count\<close>.\<close>

definition node_ok :: "nat \<Rightarrow> Node64 \<Rightarrow> bool" where
  "node_ok n node \<longleftrightarrow> (\<forall>t \<in> fst ` set (edges node). t < n) \<and> distinct (map fst (edges node))"

definition graph_inv :: "Graph64 \<Rightarrow> bool" where
  "graph_inv g \<longleftrightarrow>
     count g = length (nodes g) \<and> map snd (index g) = [0..<count g] \<and>
     distinct (map fst (index g)) \<and> (\<forall>node \<in> set (nodes g). node_ok (count g) node)"

text \<open>A graph that \<open>Rank\<close> has not touched yet: both weight slots are still zero and the
  outbound total of a node is the sum of its edge weights.\<close>

definition fresh :: "Graph64 \<Rightarrow> bool" where
  "fresh g \<longleftrightarrow> (\<forall>node \<in> set (nodes g).
      weight node = (0, 0) \<and> outbound node = sum_list (map snd (edges node)))"

definition nonneg :: "Graph64 \<Rightarrow> bool" where
  "nonneg g \<longleftrightarrow> (\<forall>node \<in> set (nodes g). \<forall>e \<in> set (edges node). 0 \<le> snd e)"

text \<open>The two writes of \<open>Link\<close> to the source node, taken together.\<close>

definition link_node :: "nat \<Rightarrow> real \<Rightarrow> Node64 \<Rightarrow> Node64" where
  "link_node t w node =
     node\<lparr>outbound := outbound node + w,
          edges := AList.update t (edge_weight (edges node) t + w) (edges node)\<rparr>"

text \<open>\<open>node.weight[b] += v\<close>, and the total weight of the entries of an edge map under
  key \<open>j\<close> (with distinct keys, the stored weight).\<close>

definition wadd :: "nat \<Rightarrow> real \<Rightarrow> Node64 \<Rightarrow> Node64" where
  "wadd b v node = wset b (wget b node + v) node"

definition inflow :: "(nat \<times> real) list \<Rightarrow> nat \<Rightarrow> real" where
  "inflow es j = sum_list (map (\<lambda>e. if fst e = j then snd e else 0) es)"

definition targets_ok :: "Node64 list \<Rightarrow> bool" where
  "targets_ok ns \<longleftrightarrow> (\<forall>i < length ns. \<forall>e \<in> set (edges (ns ! i)). fst e < length ns)"

text \<open>The current rank of node \<open>i\<close> in a loop state, and the invariant of the loop over the
  normalized node list \<open>ns0\<close>: the slots are 0 and 1, edges and outbound totals are those of
  \<open>ns0\<close>, slot \<open>b\<close> is zero everywhere, and \<open>leak\<close> is the current rank of the nodes whose
  outbound total is 0.\<close>

definition cur :: "rank_state \<Rightarrow> nat \<Rightarrow> real" where
  "cur st i = wget (st_a st) (st_nodes st ! i)"

definition rank_inv :: "Node64 list \<Rightarrow> rank_state \<Rightarrow> bool" where
  "rank_inv ns0 st \<longleftrightarrow>
     length (st_nodes st) = length ns0 \<and> st_a st < 2 \<and> st_b st < 2 \<and> st_a st \<noteq> st_b st \<and>
     (\<forall>i < length ns0. edges (st_nodes st ! i) = edges (ns0 ! i) \<and>
                       outbound (st_nodes st ! i) = outbound (ns0 ! i) \<and>
                       wget (st_b st) (st_nodes st ! i) = 0) \<and>
     st_leak st = (\<Sum>i < length ns0. if outbound (ns0 ! i) = 0 then cur st i else 0)"

text \<open>The state after \<open>k\<close> turns of the loop body, whatever \<open>\<Delta>\<close> is: the states the loop
  visits are among these.\<close>

fun iterations :: "nat \<Rightarrow> real \<Rightarrow> real \<Rightarrow> rank_state \<Rightarrow> error + rank_state" where
  "iterations 0 \<alpha> invN st = Inr st"
| "iterations (Suc k) \<alpha> invN st =
     (case iteration \<alpha> invN st of Inl e \<Rightarrow> Inl e | Inr st' \<Rightarrow> iterations k \<alpha> invN st')"

text \<open>The transition weight from node \<open>i\<close> to node \<open>j\<close> that one turn of the loop
  applies to the current ranks: the weight of the edge, and for a node whose outbound total
  is 0 an equal share \<open>1 / N\<close> to every node (its rank goes into \<open>leak\<close>).\<close>

definition transition :: "Node64 list \<Rightarrow> nat \<Rightarrow> nat \<Rightarrow> real" where
  "transition ns0 i j =
     inflow (edges (ns0 ! i)) j + (if outbound (ns0 ! i) = 0 then 1 / real (length ns0) else 0)"

text \<open>Concrete graphs: the result of \<open>Link(1, 2, 1)\<close>, \<open>Link(2, 3, 1)\<close> on a new graph
  (node 3 has no outbound edge), and the result of \<open>Link(1, 1, -1)\<close>, \<open>Link(1, 2, 2)\<close>,
  \<open>Link(2, 1, 1)\<close> (both outbound totals are 1).\<close>

definition chain_graph :: Graph64 where
  "chain_graph =
     \<lparr>Verbose = False, count = 3, index = [(1, 0), (2, 1), (3, 2)],
      nodes = [\<lparr>weight = (0, 0), outbound = 1, edges = [(1, 1)]\<rparr>,
               \<lparr>weight = (0, 0), outbound = 1, edges = [(2, 1)]\<rparr>,
               \<lparr>weight = (0, 0), outbound = 0, edges = []\<rparr>]\<rparr>"




text \<open>The graph of \<open>Link(1, 2, 2)\<close>, \<open>Link(2, 1, 2)\<close>, the graph \<open>Rank\<close> leaves of it
  with \<open>\<alpha> = 1/2\<close> and \<open>\<epsilon> = 1/10\<close>, and the graph a second such call leaves; the loop state
  of the chain graph after the first turn with \<open>\<alpha> = 1/2\<close>.\<close>

definition cycle_graph :: Graph64 where
  "cycle_graph =
     \<lparr>Verbose = False, count = 2, index = [(1, 0), (2, 1)],
      nodes = [\<lparr>weight = (0, 0), outbound = 2, edges = [(1, 2)]\<rparr>,
               \<lparr>weight = (0, 0), outbound = 2, edges = [(0, 2)]\<rparr>]\<rparr>"

definition cycle_graph_ranked :: Graph64 where
  "cycle_graph_ranked =
     \<lparr>Verbose = False, count = 2, index = [(1, 0), (2, 1)],
      nodes = [\<lparr>weight = (0, 1 / 2), outbound = 2, edges = [(1, 1)]\<rparr>,
               \<lparr>weight = (0, 1 / 2), outbound = 2, edges = [(0, 1)]\<rparr>]\<rparr>"

definition cycle_graph_reranked :: Graph64 where
  "cycle_graph_reranked =
     \<lparr>Verbose = False, count = 2, index = [(1, 0), (2, 1)],
      nodes = [\<lparr>weight = (175 / 512, 0), outbound = 2, edges = [(1, 1 / 2)]\<rparr>,
               \<lparr>weight = (175 / 512, 0), outbound = 2, edges = [(0, 1 / 2)]\<rparr>]\<rparr>"

text \<open>The loop state of the second call of \<open>Rank\<close> on the graph of \<open>Link(1, 2, 2)\<close>,
  \<open>Link(2, 1, 2)\<close> before its first turn (the edges divided by 2 again, \<open>1/2\<close> written into
  slot 0, slot 1 still holding the ranks of the first call) and after its first turn.\<close>

definition cycle_second_start :: rank_state where
  "cycle_second_start =
     \<lparr>st_nodes = [\<lparr>weight = (1 / 2, 1 / 2), outbound = 2, edges = [(1, 1 / 2)]\<rparr>,
                  \<lparr>weight = (1 / 2, 1 / 2), outbound = 2, edges = [(0, 1 / 2)]\<rparr>],
      st_a = 0, st_b = 1, st_Delta = 1, st_leak = 0\<rparr>"

definition cycle_second_turn :: rank_state where
  "cycle_second_turn =
     \<lparr>st_nodes = [\<lparr>weight = (0, 7 / 8), outbound = 2, edges = [(1, 1 / 2)]\<rparr>,
                  \<lparr>weight = (0, 7 / 8), outbound = 2, edges = [(0, 1 / 2)]\<rparr>],
      st_a = 1, st_b = 0, st_Delta = 3 / 4, st_leak = 0\<rparr>"

definition chain_state :: rank_state where
  "chain_state =
     \<lparr>st_nodes = [\<lparr>weight = (0, 2 / 9), outbound = 1, edges = [(1, 1)]\<rparr>,
                  \<lparr>weight = (0, 7 / 18), outbound = 1, edges = [(2, 1)]\<rparr>,
                  \<lparr>weight = (0, 7 / 18), outbound = 0, edges = []\<rparr>],
      st_a = 1, st_b = 0, st_Delta = 2 / 9, st_leak = 7 / 18\<rparr>"

text \<open>Relating the two variants. \<open>ids\<close> lists the identifiers in the order of their
  dense indices; \<open>relabel\<close> turns an edge map of \<open>Graph64\<close> (keys are indices) into the
  edge map of \<open>Graph\<close> (keys are identifiers); \<open>wrel\<close> says that the node map of
  \<open>Graph\<close> has these keys in this order and, node for node, the weight that the node slice
  of \<open>Graph64\<close> has in slot \<open>b\<close>, and the same outbound total.\<close>

definition relabel :: "64 word list \<Rightarrow> (nat \<times> real) list \<Rightarrow> (64 word \<times> real) list" where
  "relabel ids m = map (\<lambda>e. (ids ! fst e, snd e)) m"

definition wrel :: "nat \<Rightarrow> 64 word list \<Rightarrow> (64 word \<times> node) list \<Rightarrow> Node64 list \<Rightarrow> bool" where
  "wrel b ids ns xs \<longleftrightarrow>
     map fst ns = ids \<and> length xs = length ids \<and>
     (\<forall>i < length ids. weight_s (snd (ns ! i)) = wget b (xs ! i) \<and>
                       outbound_s (snd (ns ! i)) = outbound (xs ! i))"

text \<open>The loop states of the two variants agree: over the normalized node list the state of
  \<open>Graph64\<close> satisfies its invariant, and the node map of \<open>Graph\<close> holds its current
  ranks and the same \<open>\<Delta>\<close>.\<close>

definition srel ::
  "64 word list \<Rightarrow> Node64 list \<Rightarrow> (64 word \<times> node) list \<times> real \<Rightarrow> rank_state \<Rightarrow> bool" where
  "srel ids nz s st \<longleftrightarrow>
     rank_inv nz st \<and> map fst (fst s) = ids \<and>
     (\<forall>i < length ids. weight_s (snd (fst s ! i)) = cur st i \<and>
                       outbound_s (snd (fst s ! i)) = outbound (nz ! i)) \<and>
     snd s = st_Delta st"

text \<open>The two graphs hold the same data: the same identifiers in the same order, the same
  outbound totals, the same edge maps up to the naming of the targets.\<close>

definition corr :: "Graph64 \<Rightarrow> Graph \<Rightarrow> bool" where
  "corr g h \<longleftrightarrow>
     map fst (nodes_s h) = map fst (index g) \<and>
     (\<forall>i < length (nodes g). outbound_s (snd (nodes_s h ! i)) = outbound (nodes g ! i)) \<and>
     (\<forall>i < length (nodes g). edges_of (edges_s h) (map fst (index g) ! i)
                               = relabel (map fst (index g)) (edges (nodes g ! i))) \<and>
     fst ` set (edges_s h) \<subseteq> fst ` set (index g)"

text \<open>The identifiers after one more identifier has been seen.\<close>

definition ids_add :: "64 word \<Rightarrow> 64 word list \<Rightarrow> 64 word list" where
  "ids_add k ids = (if k \<in> set ids then ids else ids @ [k])"

section \<open>Lemmas about Link and Rank\<close>

subsection \<open>Link and the structural invariant\<close>

lemma update_absent: "k \<notin> fst ` set al \<Longrightarrow> AList.update k v al = al @ [(k, v)]"
  by (induction al) auto

lemma map_of_None_keys: "map_of al k = None \<Longrightarrow> k \<notin> fst ` set al"
  by (simp add: map_of_eq_None_iff)

lemma sum_update_edge:
  "sum_list (map snd (AList.update t (edge_weight es t + w) es)) = sum_list (map snd es) + w"
  by (induction es) (auto simp: edge_weight_def)

lemma index_value_lt:
  assumes "graph_inv g" "map_of (index g) k = Some i"
  shows "i < count g"
proof -
  from assms(2) have "(k, i) \<in> set (index g)" by (rule map_of_SomeD)
  then have "i \<in> set (map snd (index g))" by force
  with assms(1) show ?thesis by (simp add: graph_inv_def)
qed

lemma node_ok_mono: "node_ok n node \<Longrightarrow> n \<le> m \<Longrightarrow> node_ok m node"
  by (auto simp: node_ok_def)

lemma node_ok_zero: "node_ok n Node64_zero"
  by (simp add: node_ok_def Node64_zero_def)

lemma lookup_or_append_inv:
  assumes "graph_inv g" "lookup_or_append k g = (i, g')"
  shows "graph_inv g'" "i < count g'" "map_of (index g') k = Some i"
    "count g \<le> count g'" "take (count g) (nodes g') = nodes g"
    "\<forall>j. count g \<le> j \<and> j < count g' \<longrightarrow> nodes g' ! j = Node64_zero"
    "\<forall>k' j. map_of (index g) k' = Some j \<longrightarrow> map_of (index g') k' = Some j"
    "Verbose g' = Verbose g"
    "nodes g' ! i = (case map_of (index g) k of None \<Rightarrow> Node64_zero | Some i' \<Rightarrow> nodes g ! i')"
    "\<forall>j < count g'. nodes g' ! j = (if j < count g then nodes g ! j else Node64_zero)"
proof -
  show "graph_inv g'"
  proof (cases "map_of (index g) k")
    case None
    then have nk: "k \<notin> fst ` set (index g)" by (rule map_of_None_keys)
    from None assms(2) have g': "g' = g\<lparr>index := index g @ [(k, count g)],
            nodes := nodes g @ [Node64_zero], count := count g + 1\<rparr>"
      by (auto simp: lookup_or_append_def update_absent[OF nk])
    show ?thesis using assms(1) nk unfolding g' graph_inv_def
      by (auto simp: node_ok_zero intro: node_ok_mono)
  next
    case (Some a)
    with assms show ?thesis by (simp add: lookup_or_append_def)
  qed
  show "i < count g'" using assms
    by (auto simp: lookup_or_append_def index_value_lt split: option.splits)
  show "map_of (index g') k = Some i" using assms(2)
    by (auto simp: lookup_or_append_def update_conv' split: option.splits)
  show "count g \<le> count g'" using assms(2)
    by (auto simp: lookup_or_append_def split: option.splits)
  show "take (count g) (nodes g') = nodes g" using assms
    by (auto simp: lookup_or_append_def graph_inv_def split: option.splits)
  show "\<forall>j. count g \<le> j \<and> j < count g' \<longrightarrow> nodes g' ! j = Node64_zero" using assms
    by (auto simp: lookup_or_append_def graph_inv_def nth_append split: option.splits)
  show "\<forall>k' j. map_of (index g) k' = Some j \<longrightarrow> map_of (index g') k' = Some j" using assms(2)
    by (auto simp: lookup_or_append_def update_conv' split: option.splits)
  show "Verbose g' = Verbose g" using assms(2)
    by (auto simp: lookup_or_append_def split: option.splits)
  show "nodes g' ! i = (case map_of (index g) k of None \<Rightarrow> Node64_zero | Some i' \<Rightarrow> nodes g ! i')"
  proof (cases "map_of (index g) k")
    case None
    moreover have "length (nodes g) = count g" using assms(1) by (simp add: graph_inv_def)
    ultimately show ?thesis using assms(2)
      by (auto simp: lookup_or_append_def nth_append)
  next
    case (Some a)
    then show ?thesis using assms(2) by (auto simp: lookup_or_append_def)
  qed
  show "\<forall>j < count g'. nodes g' ! j = (if j < count g then nodes g ! j else Node64_zero)"
    using assms by (auto simp: lookup_or_append_def graph_inv_def nth_append split: option.splits)
qed

lemma edge_weight_absent: "t \<notin> fst ` set es \<Longrightarrow> edge_weight es t = 0"
  by (simp add: edge_weight_def map_of_eq_None_iff[THEN iffD2])

lemma edge_weight_update: "edge_weight (AList.update t v es) t = v"
  by (simp add: edge_weight_def update_conv')

lemma graph_inv_nth:
  "graph_inv g \<Longrightarrow> s < count g \<Longrightarrow> node_ok (count g) (nodes g ! s)"
  by (auto simp: graph_inv_def)

lemma graph_inv_outbound:
  assumes "graph_inv g" "s < count g"
  shows "graph_inv (g\<lparr>nodes := (nodes g)[s := (nodes g ! s)\<lparr>outbound := x\<rparr>]\<rparr>)"
proof -
  have "node_ok (count g) ((nodes g ! s)\<lparr>outbound := x\<rparr>)"
    using graph_inv_nth[OF assms] by (simp add: node_ok_def)
  then show ?thesis using assms
    by (auto simp: graph_inv_def dest!: set_update_subset_insert[THEN subsetD])
qed

lemma graph_inv_edges:
  assumes "graph_inv g" "s < count g" "t < count g"
  shows "graph_inv (g\<lparr>nodes := (nodes g)[s := (nodes g ! s)\<lparr>edges := AList.update t v (edges (nodes g ! s))\<rparr>]\<rparr>)"
proof -
  have "node_ok (count g) (nodes g ! s)" using assms by (simp add: graph_inv_nth)
  then have "node_ok (count g) ((nodes g ! s)\<lparr>edges := AList.update t v (edges (nodes g ! s))\<rparr>)"
    using assms(3) by (auto simp: node_ok_def dom_update distinct_update)
  then show ?thesis using assms
    by (auto simp: graph_inv_def dest!: set_update_subset_insert[THEN subsetD])
qed

lemma Link_unfold:
  assumes "graph_inv g"
  obtains s g1 t g3 where
    "lookup_or_append source g = (s, g1)"
    "lookup_or_append target (g1\<lparr>nodes := (nodes g1)[s := (nodes g1 ! s)\<lparr>outbound := outbound (nodes g1 ! s) + w\<rparr>]\<rparr>) = (t, g3)"
    "Link source target w g = Inr (g3\<lparr>nodes := (nodes g3)[s := (nodes g3 ! s)\<lparr>edges :=
                   AList.update t (edge_weight (edges (nodes g3 ! s)) t + w) (edges (nodes g3 ! s))\<rparr>]\<rparr>)"
proof -
  obtain s g1 where 1: "lookup_or_append source g = (s, g1)" by (cases "lookup_or_append source g")
  let ?g2 = "g1\<lparr>nodes := (nodes g1)[s := (nodes g1 ! s)\<lparr>outbound := outbound (nodes g1 ! s) + w\<rparr>]\<rparr>"
  obtain t g3 where 2: "lookup_or_append target ?g2 = (t, g3)" by (cases "lookup_or_append target ?g2")
  from lookup_or_append_inv[OF assms 1] have "s < length (nodes g1)"
    by (simp add: graph_inv_def)
  then have "Link source target w g = Inr (g3\<lparr>nodes := (nodes g3)[s := (nodes g3 ! s)\<lparr>edges :=
                   AList.update t (edge_weight (edges (nodes g3 ! s)) t + w) (edges (nodes g3 ! s))\<rparr>]\<rparr>)"
    using 1 2 by (simp add: Link_def Let_def)
  with 1 2 show thesis by (rule that)
qed

lemma Link_props:
  assumes inv: "graph_inv g"
  shows "\<exists>g' s t.
    Link source target w g = Inr g' \<and> graph_inv g' \<and>
    map_of (index g') source = Some s \<and> map_of (index g') target = Some t \<and>
    count g \<le> count g' \<and>
    nodes g' ! s = link_node t w (case map_of (index g) source of None \<Rightarrow> Node64_zero | Some i \<Rightarrow> nodes g ! i) \<and>
    (\<forall>j < count g'. j \<noteq> s \<longrightarrow> nodes g' ! j = (if j < count g then nodes g ! j else Node64_zero)) \<and>
    (map_of (index g) target = None \<longrightarrow> t \<ge> count g) \<and>
    (\<forall>j. map_of (index g) target = Some j \<longrightarrow> t = j)"
proof -
  obtain s g1 t g3 where
    1: "lookup_or_append source g = (s, g1)" and
    2: "lookup_or_append target (g1\<lparr>nodes := (nodes g1)[s := (nodes g1 ! s)\<lparr>outbound := outbound (nodes g1 ! s) + w\<rparr>]\<rparr>) = (t, g3)" and
    3: "Link source target w g = Inr (g3\<lparr>nodes := (nodes g3)[s := (nodes g3 ! s)\<lparr>edges :=
                   AList.update t (edge_weight (edges (nodes g3 ! s)) t + w) (edges (nodes g3 ! s))\<rparr>]\<rparr>)"
    by (rule Link_unfold[OF inv])
  let ?g2 = "g1\<lparr>nodes := (nodes g1)[s := (nodes g1 ! s)\<lparr>outbound := outbound (nodes g1 ! s) + w\<rparr>]\<rparr>"
  let ?g' = "g3\<lparr>nodes := (nodes g3)[s := (nodes g3 ! s)\<lparr>edges :=
                   AList.update t (edge_weight (edges (nodes g3 ! s)) t + w) (edges (nodes g3 ! s))\<rparr>]\<rparr>"
  note a = lookup_or_append_inv[OF inv 1]
  have inv2: "graph_inv ?g2" by (rule graph_inv_outbound[OF a(1) a(2)])
  note b = lookup_or_append_inv[OF inv2 2]
  have s3: "s < count g3" using a(2) b(4) by simp
  have len1: "count g1 = length (nodes g1)" using a(1) by (simp add: graph_inv_def)
  have len3: "count g3 = length (nodes g3)" using b(1) by (simp add: graph_inv_def)
  have inv': "graph_inv ?g'" by (rule graph_inv_edges[OF b(1) s3 b(2)])
  have src: "map_of (index ?g') source = Some s" using a(3) b(7) by simp
  have tgt: "map_of (index ?g') target = Some t" using b(3) by simp
  have cnt: "count g \<le> count ?g'" using a(4) b(4) by simp
  have n3: "nodes g3 ! s = (nodes g1 ! s)\<lparr>outbound := outbound (nodes g1 ! s) + w\<rparr>"
    using b(10) s3 a(2) len1 by simp
  have ns: "nodes ?g' ! s = link_node t w (case map_of (index g) source of None \<Rightarrow> Node64_zero | Some i \<Rightarrow> nodes g ! i)"
    using s3 len3 n3 a(9) by (simp add: link_node_def)
  have other: "\<forall>j < count ?g'. j \<noteq> s \<longrightarrow> nodes ?g' ! j = (if j < count g then nodes g ! j else Node64_zero)"
  proof (intro allI impI)
    fix j assume j: "j < count ?g'" "j \<noteq> s"
    then have "nodes ?g' ! j = nodes g3 ! j" by simp
    also have "\<dots> = (if j < count g1 then nodes ?g2 ! j else Node64_zero)" using b(10) j by simp
    also have "\<dots> = (if j < count g1 then nodes g1 ! j else Node64_zero)" using j by simp
    also have "\<dots> = (if j < count g then nodes g ! j else Node64_zero)" using a(10) a(4) by auto
    finally show "nodes ?g' ! j = (if j < count g then nodes g ! j else Node64_zero)" .
  qed
  have tnew: "map_of (index g) target = None \<longrightarrow> t \<ge> count g"
    using 1 2 by (auto simp: lookup_or_append_def update_conv' split: option.splits if_splits)
  have told: "\<forall>j. map_of (index g) target = Some j \<longrightarrow> t = j"
    using 1 2 by (auto simp: lookup_or_append_def update_conv' split: option.splits if_splits)
  show ?thesis
    by (intro exI[of _ ?g'] exI[of _ s] exI[of _ t] conjI)
       (fact 3 inv' src tgt cnt ns other tnew told)+
qed

subsection \<open>The update pass\<close>

lemma wadd_simps [simp]:
  "edges (wadd b v n) = edges n" "outbound (wadd b v n) = outbound n"
  "wget b (wadd b v n) = wget b n + v" "a \<noteq> b \<Longrightarrow> a < 2 \<Longrightarrow> b < 2 \<Longrightarrow> wget a (wadd b v n) = wget a n"
  "wadd b x (wadd b y n) = wadd b (y + x) n" "wadd b 0 n = n"
  by (auto simp: wadd_def wset_def wget_def)

lemma wset_simps [simp]:
  "edges (wset b v n) = edges n" "outbound (wset b v n) = outbound n"
  "wget b (wset b v n) = v" "a \<noteq> b \<Longrightarrow> a < 2 \<Longrightarrow> b < 2 \<Longrightarrow> wget a (wset b v n) = wget a n"
  by (auto simp: wset_def wget_def)

lemma inflow_simps [simp]:
  "inflow [] j = 0" "inflow ((t, w) # es) j = (if t = j then w else 0) + inflow es j"
  by (simp_all add: inflow_def)

lemma push_spec:
  assumes "\<forall>e \<in> set es. fst e < length ns"
  shows "\<exists>ns'. push b aa es ns = Inr ns' \<and> length ns' = length ns \<and>
           (\<forall>j < length ns. ns' ! j = wadd b (aa * inflow es j) (ns ! j))"
  using assms
proof (induction es arbitrary: ns)
  case Nil
  then show ?case by simp
next
  case (Cons e es)
  obtain t w where e: "e = (t, w)" by (cases e)
  let ?ns1 = "ns[t := wset b (wget b (ns ! t) + aa * w) (ns ! t)]"
  from Cons.prems e have t: "t < length ns" by simp
  have "\<forall>e \<in> set es. fst e < length ?ns1" using Cons.prems by simp
  from Cons.IH[OF this] obtain ns' where
    1: "push b aa es ?ns1 = Inr ns'" and 2: "length ns' = length ns"
    and 3: "\<forall>j < length ns. ns' ! j = wadd b (aa * inflow es j) (?ns1 ! j)" by auto
  have "\<forall>j < length ns. ns' ! j = wadd b (aa * inflow (e # es) j) (ns ! j)"
  proof (intro allI impI)
    fix j assume j: "j < length ns"
    have "?ns1 ! j = wadd b (aa * (if t = j then w else 0)) (ns ! j)"
      using j t by (auto simp: nth_list_update wadd_def[symmetric])
    with 3 j show "ns' ! j = wadd b (aa * inflow (e # es) j) (ns ! j)"
      by (simp add: e distrib_left)
  qed
  with 1 2 t show ?case by (simp add: e)
qed

lemma update_spec:
  assumes "\<forall>e \<in> set (edges (ns ! i)). fst e < length ns" "i < length ns"
  shows "\<exists>ns'. update \<alpha> a b adj i ns = Inr ns' \<and> length ns' = length ns \<and>
           (\<forall>j < length ns. ns' ! j =
              wadd b (\<alpha> * wget a (ns ! i) * inflow (edges (ns ! i)) j + (if i = j then adj else 0)) (ns ! j))"
proof -
  from push_spec[OF assms(1), of b "\<alpha> * wget a (ns ! i)"] obtain ns1 where
    1: "push b (\<alpha> * wget a (ns ! i)) (edges (ns ! i)) ns = Inr ns1" and 2: "length ns1 = length ns"
    and 3: "\<forall>j < length ns. ns1 ! j = wadd b (\<alpha> * wget a (ns ! i) * inflow (edges (ns ! i)) j) (ns ! j)"
    by auto
  let ?ns' = "ns1[i := wset b (wget b (ns1 ! i) + adj) (ns1 ! i)]"
  have "update \<alpha> a b adj i ns = Inr ?ns'" using 1 by (simp add: update_def Let_def)
  moreover have "length ?ns' = length ns" using 2 by simp
  moreover have "\<forall>j < length ns. ?ns' ! j =
      wadd b (\<alpha> * wget a (ns ! i) * inflow (edges (ns ! i)) j + (if i = j then adj else 0)) (ns ! j)"
  proof (intro allI impI)
    fix j assume j: "j < length ns"
    have "?ns' ! j = wadd b (if i = j then adj else 0) (ns1 ! j)"
      using j 2 by (auto simp: nth_list_update wadd_def[symmetric])
    with 3 j show "?ns' ! j =
      wadd b (\<alpha> * wget a (ns ! i) * inflow (edges (ns ! i)) j + (if i = j then adj else 0)) (ns ! j)"
      by simp
  qed
  ultimately show ?thesis by blast
qed

lemma update_pass_spec:
  assumes "targets_ok ns" "\<forall>i \<in> set is. i < length ns" "a \<noteq> b" "a < 2" "b < 2"
  shows "\<exists>ns'. update_pass \<alpha> a b adj is ns = Inr ns' \<and> length ns' = length ns \<and>
           (\<forall>j < length ns. ns' ! j =
              wadd b (sum_list (map (\<lambda>i. \<alpha> * wget a (ns ! i) * inflow (edges (ns ! i)) j
                                         + (if i = j then adj else 0)) is)) (ns ! j))"
  using assms(1,2)
proof (induction "is" arbitrary: ns)
  case Nil
  then show ?case by simp
next
  case (Cons i "is")
  from Cons.prems have i: "i < length ns" by simp
  with Cons.prems(1) have "\<forall>e \<in> set (edges (ns ! i)). fst e < length ns"
    by (simp add: targets_ok_def)
  from update_spec[OF this i, of \<alpha> a b adj] obtain ns1 where
    1: "update \<alpha> a b adj i ns = Inr ns1" and 2: "length ns1 = length ns"
    and 3: "\<forall>j < length ns. ns1 ! j =
              wadd b (\<alpha> * wget a (ns ! i) * inflow (edges (ns ! i)) j + (if i = j then adj else 0)) (ns ! j)"
    by auto
  have ok1: "targets_ok ns1" using Cons.prems(1) 2 3 by (simp add: targets_ok_def)
  have is1: "\<forall>i \<in> set is. i < length ns1" using Cons.prems(2) 2 by simp
  from Cons.IH[OF ok1 is1] obtain ns' where
    4: "update_pass \<alpha> a b adj is ns1 = Inr ns'" and 5: "length ns' = length ns1"
    and 6: "\<forall>j < length ns1. ns' ! j =
              wadd b (sum_list (map (\<lambda>i. \<alpha> * wget a (ns1 ! i) * inflow (edges (ns1 ! i)) j
                                         + (if i = j then adj else 0)) is)) (ns1 ! j)"
    by auto
  have eq: "map (\<lambda>i. \<alpha> * wget a (ns1 ! i) * inflow (edges (ns1 ! i)) j + (if i = j then adj else 0)) is
          = map (\<lambda>i. \<alpha> * wget a (ns ! i) * inflow (edges (ns ! i)) j + (if i = j then adj else 0)) is" for j
    using Cons.prems(2) 3 assms(3,4,5) by (auto intro!: map_cong)
  have "\<forall>j < length ns. ns' ! j =
              wadd b (sum_list (map (\<lambda>i. \<alpha> * wget a (ns ! i) * inflow (edges (ns ! i)) j
                                         + (if i = j then adj else 0)) (i # is))) (ns ! j)"
    using 2 3 6 by (simp add: eq)
  with 1 2 4 5 show ?case by simp
qed

subsection \<open>One turn of the loop\<close>

lemma sum_list_map_nth: "sum_list (map f xs) = (\<Sum>i < length xs. f (xs ! i))"
proof -
  have "sum_list (map f xs) = (\<Sum>i = 0..<length (map f xs). map f xs ! i)"
    by (rule sum_list_sum_nth)
  also have "\<dots> = (\<Sum>i < length xs. f (xs ! i))"
    by (simp add: atLeast0LessThan)
  finally show ?thesis .
qed

lemma sum_list_upt: "sum_list (map f [0..<n]) = (\<Sum>i < n. f i)"
  by (simp add: interv_sum_list_conv_sum_set_nat atLeast0LessThan)

lemma foldl_cond_add:
  "foldl (\<lambda>acc x. if P x then acc + f x else acc) acc xs
     = acc + sum_list (map (\<lambda>x. if P x then f x else (0::real)) xs)"
  by (induction xs arbitrary: acc) auto

lemma foldl_abs_add:
  "foldl (\<lambda>acc x. let aa = f x; bb = g x; difference = aa - bb
                   in if difference < 0 then acc - difference else acc + difference) acc xs
     = acc + sum_list (map (\<lambda>x. \<bar>f x - g x :: real\<bar>) xs)"
  by (induction xs arbitrary: acc) (auto simp: Let_def)

lemma delta_of_sum: "delta_of a b ns = (\<Sum>i < length ns. \<bar>wget a (ns ! i) - wget b (ns ! i)\<bar>)"
  unfolding delta_of_def foldl_abs_add by (simp add: sum_list_map_nth)

lemma leak_of_sum:
  "leak_of b ns = (\<Sum>i < length ns. if outbound (ns ! i) = 0 then wget b (ns ! i) else 0)"
  unfolding leak_of_def foldl_cond_add by (simp add: sum_list_map_nth)

lemma initialize_leak:
  "st_leak (initialize invN ns) = (\<Sum>i < length ns. if outbound (ns ! i) = 0 then invN else 0)"
  unfolding initialize_def by (simp add: foldl_cond_add sum_list_map_nth)

lemma update_pass_state:
  assumes "rank_inv ns0 st" "targets_ok ns0"
  shows "\<exists>ns'. update_pass \<alpha> (st_a st) (st_b st) adj [0..<length (st_nodes st)] (st_nodes st) = Inr ns' \<and>
           length ns' = length ns0 \<and>
           (\<forall>j < length ns0. ns' ! j =
              wadd (st_b st) (\<alpha> * (\<Sum>i < length ns0. cur st i * inflow (edges (ns0 ! i)) j) + adj)
                   (st_nodes st ! j))"
proof -
  let ?ns = "st_nodes st" and ?N = "length ns0"
  have len: "length ?ns = ?N" and ab: "st_a st \<noteq> st_b st" "st_a st < 2" "st_b st < 2"
    and ed: "\<forall>i < ?N. edges (?ns ! i) = edges (ns0 ! i)"
    using assms(1) by (simp_all add: rank_inv_def)
  have ok: "targets_ok ?ns" using assms(2) len ed by (simp add: targets_ok_def)
  have "\<forall>i \<in> set [0..<length ?ns]. i < length ?ns" by simp
  from update_pass_spec[OF ok this ab, of \<alpha> adj] obtain ns' where
    1: "update_pass \<alpha> (st_a st) (st_b st) adj [0..<length ?ns] ?ns = Inr ns'"
    and 2: "length ns' = length ?ns"
    and 3: "\<forall>j < length ?ns. ns' ! j =
              wadd (st_b st) (sum_list (map (\<lambda>i. \<alpha> * wget (st_a st) (?ns ! i) * inflow (edges (?ns ! i)) j
                                         + (if i = j then adj else 0)) [0..<length ?ns])) (?ns ! j)"
    by auto
  have s: "sum_list (map (\<lambda>i. \<alpha> * wget (st_a st) (?ns ! i) * inflow (edges (?ns ! i)) j
                                         + (if i = j then adj else 0)) [0..<length ?ns])
         = \<alpha> * (\<Sum>i < ?N. cur st i * inflow (edges (ns0 ! i)) j) + adj" if j: "j < ?N" for j
  proof -
    have "sum_list (map (\<lambda>i. \<alpha> * wget (st_a st) (?ns ! i) * inflow (edges (?ns ! i)) j
                                         + (if i = j then adj else 0)) [0..<length ?ns])
        = (\<Sum>i < ?N. \<alpha> * wget (st_a st) (?ns ! i) * inflow (edges (?ns ! i)) j
                                         + (if i = j then adj else 0))"
      by (simp add: sum_list_upt len)
    also have "\<dots> = (\<Sum>i < ?N. \<alpha> * (cur st i * inflow (edges (ns0 ! i)) j)) + (\<Sum>i < ?N. if i = j then adj else 0)"
      using ed by (simp add: sum.distrib cur_def mult.assoc)
    also have "(\<Sum>i < ?N. if i = j then adj else 0) = adj" using j by simp
    finally show ?thesis by (simp add: sum_distrib_left)
  qed
  have "\<forall>j < ?N. ns' ! j =
              wadd (st_b st) (\<alpha> * (\<Sum>i < ?N. cur st i * inflow (edges (ns0 ! i)) j) + adj) (?ns ! j)"
    using 3 s len by simp
  with 1 2 len show ?thesis by simp
qed

lemma iteration_spec:
  assumes "rank_inv ns0 st" "targets_ok ns0"
  shows "\<exists>st'. iteration \<alpha> invN st = Inr st' \<and> rank_inv ns0 st' \<and>
           (\<forall>j < length ns0. cur st' j =
              \<alpha> * (\<Sum>i < length ns0. cur st i * inflow (edges (ns0 ! i)) j)
                + adjustment_of \<alpha> invN (st_leak st)) \<and>
           st_Delta st' = (\<Sum>i < length ns0. \<bar>cur st i - cur st' i\<bar>)"
proof -
  let ?ns = "st_nodes st" and ?N = "length ns0" and ?a = "st_a st" and ?b = "st_b st"
  let ?adj = "adjustment_of \<alpha> invN (st_leak st)"
  have len: "length ?ns = ?N" and ab: "?a \<noteq> ?b" "?a < 2" "?b < 2"
    and ed: "\<forall>i < ?N. edges (?ns ! i) = edges (ns0 ! i)"
    and ob: "\<forall>i < ?N. outbound (?ns ! i) = outbound (ns0 ! i)"
    and zb: "\<forall>i < ?N. wget ?b (?ns ! i) = 0"
    using assms(1) by (simp_all add: rank_inv_def)
  from update_pass_state[OF assms, of \<alpha> ?adj] obtain ns' where
    1: "update_pass \<alpha> ?a ?b ?adj [0..<length ?ns] ?ns = Inr ns'"
    and 2: "length ns' = ?N"
    and 3: "\<forall>j < ?N. ns' ! j =
              wadd ?b (\<alpha> * (\<Sum>i < ?N. cur st i * inflow (edges (ns0 ! i)) j) + ?adj) (?ns ! j)"
    by auto
  let ?st' = "\<lparr>st_nodes = map (wset ?a 0) ns', st_a = ?b, st_b = ?a,
                  st_Delta = delta_of ?a ?b ns', st_leak = leak_of ?b ns'\<rparr>"
  have it: "iteration \<alpha> invN st = Inr ?st'" using 1 by (simp add: iteration_def Let_def)
  have wb: "wget ?b (ns' ! j) = \<alpha> * (\<Sum>i < ?N. cur st i * inflow (edges (ns0 ! i)) j) + ?adj"
    and wa: "wget ?a (ns' ! j) = cur st j" and e': "edges (ns' ! j) = edges (ns0 ! j)"
    and o': "outbound (ns' ! j) = outbound (ns0 ! j)" if "j < ?N" for j
    using that 3 zb ab ed ob by (simp_all add: cur_def)
  have c': "cur ?st' j = \<alpha> * (\<Sum>i < ?N. cur st i * inflow (edges (ns0 ! i)) j) + ?adj"
    if "j < ?N" for j
    using that 2 ab wb by (simp add: cur_def)
  have c'': "cur ?st' j = wget ?b (ns' ! j)" if "j < ?N" for j
    using that 2 ab by (simp add: cur_def)
  have "(\<Sum>i < ?N. if outbound (ns0 ! i) = 0 then wget ?b (ns' ! i) else 0)
      = (\<Sum>i < ?N. if outbound (ns0 ! i) = 0 then cur ?st' i else 0)"
    by (rule sum.cong) (simp_all add: c'')
  then have lk: "st_leak ?st' = (\<Sum>i < ?N. if outbound (ns0 ! i) = 0 then cur ?st' i else 0)"
    using 2 o' by (simp add: leak_of_sum)
  have inv': "rank_inv ns0 ?st'"
    unfolding rank_inv_def using 2 ab e' o' lk by simp
  have d: "st_Delta ?st' = (\<Sum>i < ?N. \<bar>cur st i - cur ?st' i\<bar>)"
    using 2 wa c'' by (simp add: delta_of_sum)
  show ?thesis using it inv' c' d by blast
qed

subsection \<open>Graphs built by Link calls\<close>

lemma graph_inv_New: "graph_inv NewGraph64"
  by (simp add: graph_inv_def NewGraph64_def)

lemma Link_nodes_pred:
  assumes inv: "graph_inv g" and all: "\<forall>node \<in> set (nodes g). P node" and z: "P Node64_zero"
    and step: "\<And>node t. P node \<Longrightarrow> P (link_node t w node)"
    and L: "Link source target w g = Inr g'"
  shows "\<forall>node \<in> set (nodes g'). P node"
proof -
  from Link_props[OF inv, of source target w]
  obtain g'' s t where 1: "Link source target w g = Inr g''" and 2: "graph_inv g''"
    and 3: "map_of (index g'') source = Some s" and 4: "map_of (index g'') target = Some t"
    and 5: "count g \<le> count g''"
    and 6: "nodes g'' ! s = link_node t w (case map_of (index g) source of None \<Rightarrow> Node64_zero | Some i \<Rightarrow> nodes g ! i)"
    and 7: "\<forall>j < count g''. j \<noteq> s \<longrightarrow> nodes g'' ! j = (if j < count g then nodes g ! j else Node64_zero)"
    and 8: "map_of (index g) target = None \<longrightarrow> t \<ge> count g"
    and 9: "\<forall>j. map_of (index g) target = Some j \<longrightarrow> t = j"
    by (elim exE conjE)
  from 1 L have g'': "g'' = g'" by simp
  have cg: "count g = length (nodes g)" using inv by (simp add: graph_inv_def)
  have P0: "P (case map_of (index g) source of None \<Rightarrow> Node64_zero | Some i \<Rightarrow> nodes g ! i)"
    using z all index_value_lt[OF inv] cg by (auto split: option.splits)
  have "P (nodes g'' ! j)" if "j < length (nodes g'')" for j
  proof (cases "j = s")
    case True
    then show ?thesis using 6 step[OF P0] by simp
  next
    case False
    have "j < count g''" using that 2 by (simp add: graph_inv_def)
    with 7 False have "nodes g'' ! j = (if j < count g then nodes g ! j else Node64_zero)" by simp
    then show ?thesis using z all cg by auto
  qed
  then show ?thesis unfolding g'' by (auto simp: in_set_conv_nth)
qed

lemma node_fresh_step:
  "weight node = (0, 0) \<and> outbound node = sum_list (map snd (edges node)) \<Longrightarrow>
   weight (link_node t w node) = (0, 0) \<and>
   outbound (link_node t w node) = sum_list (map snd (edges (link_node t w node)))"
  by (simp add: link_node_def sum_update_edge)

lemma edge_weight_nonneg: "\<forall>e \<in> set es. 0 \<le> snd e \<Longrightarrow> 0 \<le> edge_weight es t"
  by (auto simp: edge_weight_def split: option.splits dest!: map_of_SomeD)

lemma set_alist_update: "set (AList.update k v al) \<subseteq> insert (k, v) (set al)"
  by (induction al) auto

lemma node_nonneg_step:
  assumes "0 \<le> w" "\<forall>e \<in> set (edges node). 0 \<le> snd e"
  shows "\<forall>e \<in> set (edges (link_node t w node)). 0 \<le> snd e"
proof
  fix e assume "e \<in> set (edges (link_node t w node))"
  then have "e \<in> insert (t, edge_weight (edges node) t + w) (set (edges node))"
    using set_alist_update by (fastforce simp: link_node_def)
  then show "0 \<le> snd e" using assms edge_weight_nonneg[OF assms(2), of t] by auto
qed

lemma Link_ok:
  assumes "graph_inv g"
  shows "\<exists>g'. Link source target w g = Inr g' \<and> graph_inv g'"
proof -
  from Link_props[OF assms, of source target w]
  obtain g' where "Link source target w g = Inr g'" "graph_inv g'" by (elim exE conjE)
  then show ?thesis by (intro exI[of _ g'] conjI)
qed

lemma Link_fresh:
  assumes "graph_inv g" "fresh g" "Link source target w g = Inr g'"
  shows "fresh g'"
  unfolding fresh_def
  by (rule Link_nodes_pred[OF assms(1) _ _ _ assms(3)])
     (use assms(2) in \<open>auto simp: fresh_def Node64_zero_def node_fresh_step\<close>)

lemma Link_nonneg:
  assumes "graph_inv g" "nonneg g" "0 \<le> w" "Link source target w g = Inr g'"
  shows "nonneg g'"
  unfolding nonneg_def
  by (rule Link_nodes_pred[OF assms(1) _ _ _ assms(4)])
     (use assms(2,3) in \<open>auto simp: nonneg_def Node64_zero_def dest: node_nonneg_step\<close>)

lemma Links_ok:
  assumes "graph_inv g"
  shows "\<exists>g'. Links ls g = Inr g' \<and> graph_inv g'"
  using assms
proof (induction ls arbitrary: g)
  case Nil
  then show ?case by simp
next
  case (Cons l ls)
  obtain s t w where l: "l = (s, t, w)" by (cases l)
  from Link_ok[OF Cons.prems, of s t w] obtain g1 where
    "Link s t w g = Inr g1" "graph_inv g1" by auto
  with Cons.IH[of g1] show ?case by (simp add: l)
qed

lemma Links_fresh:
  assumes "graph_inv g" "fresh g" "Links ls g = Inr g'"
  shows "fresh g'"
  using assms
proof (induction ls arbitrary: g)
  case Nil
  then show ?case by simp
next
  case (Cons l ls)
  obtain s t w where l: "l = (s, t, w)" by (cases l)
  from Link_ok[OF Cons.prems(1), of s t w] obtain g1 where
    1: "Link s t w g = Inr g1" "graph_inv g1" by auto
  have "fresh g1" by (rule Link_fresh[OF Cons.prems(1,2) 1(1)])
  with Cons.IH[of g1] 1 Cons.prems(3) show ?case by (simp add: l)
qed

lemma Links_nonneg:
  assumes "graph_inv g" "nonneg g" "\<forall>l \<in> set ls. 0 \<le> snd (snd l)" "Links ls g = Inr g'"
  shows "nonneg g'"
  using assms
proof (induction ls arbitrary: g)
  case Nil
  then show ?case by simp
next
  case (Cons l ls)
  obtain s t w where l: "l = (s, t, w)" by (cases l)
  from Link_ok[OF Cons.prems(1), of s t w] obtain g1 where
    1: "Link s t w g = Inr g1" "graph_inv g1" by auto
  have "nonneg g1" using Link_nonneg[OF Cons.prems(1,2) _ 1(1)] Cons.prems(3) by (simp add: l)
  with Cons.IH[of g1] 1 Cons.prems(3,4) show ?case by (simp add: l)
qed

lemma built:
  assumes "Links ls NewGraph64 = Inr g"
  shows "graph_inv g" "fresh g"
proof -
  from Links_ok[OF graph_inv_New, of ls] assms show "graph_inv g" by auto
  have "fresh NewGraph64" by (simp add: fresh_def NewGraph64_def)
  from Links_fresh[OF graph_inv_New this assms] show "fresh g" .
qed

lemma built_nonneg:
  assumes "Links ls NewGraph64 = Inr g" "\<forall>l \<in> set ls. 0 \<le> snd (snd l)"
  shows "nonneg g"
proof -
  have "nonneg NewGraph64" by (simp add: nonneg_def NewGraph64_def)
  from Links_nonneg[OF graph_inv_New this assms(2,1)] show ?thesis .
qed

subsection \<open>Rank on a graph built by Link calls\<close>

lemma normalize_simps [simp]:
  "weight (normalize node) = weight node" "outbound (normalize node) = outbound node"
  "map fst (edges (normalize node)) = map fst (edges node)"
  by (auto simp: normalize_def)

lemma normalize_keys: "fst ` set (edges (normalize node)) = fst ` set (edges node)"
proof -
  have "set (map fst (edges (normalize node))) = set (map fst (edges node))" by simp
  then show ?thesis unfolding set_map .
qed

lemma targets_ok_normalize:
  assumes "graph_inv g"
  shows "targets_ok (map normalize (nodes g))"
proof -
  have "\<forall>t \<in> fst ` set (edges (normalize (nodes g ! i))). t < length (nodes g)"
    if "i < length (nodes g)" for i
  proof -
    from that assms have "node_ok (count g) (nodes g ! i)" by (auto simp: graph_inv_def)
    moreover have "count g = length (nodes g)" using assms by (simp add: graph_inv_def)
    ultimately show ?thesis unfolding normalize_keys by (simp add: node_ok_def)
  qed
  then show ?thesis by (simp add: targets_ok_def)
qed

lemma initialize_inv:
  assumes "\<forall>i < length ns. weight (ns ! i) = (0, 0)"
  shows "rank_inv ns (initialize invN ns)"
    "\<forall>i < length ns. cur (initialize invN ns) i = invN"
    "st_Delta (initialize invN ns) = 1" "st_a (initialize invN ns) = 0"
proof -
  show c: "\<forall>i < length ns. cur (initialize invN ns) i = invN"
    by (simp add: cur_def initialize_def)
  have "(\<Sum>i < length ns. if outbound (ns ! i) = 0 then invN else 0)
      = (\<Sum>i < length ns. if outbound (ns ! i) = 0 then cur (initialize invN ns) i else 0)"
    by (rule sum.cong) (simp_all add: c)
  then have "st_leak (initialize invN ns)
     = (\<Sum>i < length ns. if outbound (ns ! i) = 0 then cur (initialize invN ns) i else 0)"
    by (simp add: initialize_leak)
  moreover have "\<forall>i < length ns. wget 1 (wset 0 invN (ns ! i)) = 0"
    using assms by (simp add: wget_def wset_def)
  ultimately show "rank_inv ns (initialize invN ns)"
    unfolding rank_inv_def by (simp add: initialize_def)
  show "st_Delta (initialize invN ns) = 1" "st_a (initialize invN ns) = 0"
    by (simp_all add: initialize_def)
qed

lemma iterations_inv:
  assumes "rank_inv ns0 st" "targets_ok ns0"
  shows "\<exists>st'. iterations k \<alpha> invN st = Inr st' \<and> rank_inv ns0 st'"
  using assms(1)
proof (induction k arbitrary: st)
  case 0
  then show ?case by simp
next
  case (Suc k)
  from iteration_spec[OF Suc.prems assms(2), of \<alpha> invN] obtain st1 where
    "iteration \<alpha> invN st = Inr st1" "rank_inv ns0 st1" by auto
  with Suc.IH[of st1] show ?case by simp
qed

lemma rank_loop_inv:
  assumes "rank_inv ns0 st" "targets_ok ns0"
  shows "rank_loop fuel \<alpha> \<epsilon> invN st = None \<or>
         (\<exists>st' k. rank_loop fuel \<alpha> \<epsilon> invN st = Some (Inr st') \<and> k \<le> fuel \<and>
                  iterations k \<alpha> invN st = Inr st' \<and> rank_inv ns0 st' \<and> st_Delta st' \<le> \<epsilon>)"
  using assms(1)
proof (induction fuel arbitrary: st)
  case 0
  then show ?case by auto
next
  case (Suc fuel)
  show ?case
  proof (cases "st_Delta st > \<epsilon>")
    case True
    from iteration_spec[OF Suc.prems assms(2), of \<alpha> invN] obtain st1 where
      1: "iteration \<alpha> invN st = Inr st1" "rank_inv ns0 st1" by auto
    from Suc.IH[OF 1(2)] show ?thesis
    proof
      assume "rank_loop fuel \<alpha> \<epsilon> invN st1 = None"
      then show ?thesis using True 1 by simp
    next
      assume "\<exists>st' k. rank_loop fuel \<alpha> \<epsilon> invN st1 = Some (Inr st') \<and> k \<le> fuel \<and>
                  iterations k \<alpha> invN st1 = Inr st' \<and> rank_inv ns0 st' \<and> st_Delta st' \<le> \<epsilon>"
      then obtain st' k where "rank_loop fuel \<alpha> \<epsilon> invN st1 = Some (Inr st')" "k \<le> fuel"
        "iterations k \<alpha> invN st1 = Inr st'" "rank_inv ns0 st'" "st_Delta st' \<le> \<epsilon>" by blast
      then have "rank_loop (Suc fuel) \<alpha> \<epsilon> invN st = Some (Inr st') \<and> Suc k \<le> Suc fuel \<and>
                  iterations (Suc k) \<alpha> invN st = Inr st' \<and> rank_inv ns0 st' \<and> st_Delta st' \<le> \<epsilon>"
        using True 1 by simp
      then show ?thesis by blast
    qed
  next
    case False
    then have "rank_loop (Suc fuel) \<alpha> \<epsilon> invN st = Some (Inr st) \<and> 0 \<le> Suc fuel \<and>
                  iterations 0 \<alpha> invN st = Inr st \<and> rank_inv ns0 st \<and> st_Delta st \<le> \<epsilon>"
      using Suc.prems by simp
    then show ?thesis by blast
  qed
qed

lemma emit_spec:
  assumes "\<forall>e \<in> set ix. snd e < length ns"
  shows "emit a ns ix = Inr (map (\<lambda>e. (fst e, wget a (ns ! snd e))) ix)"
  using assms by (induction ix) auto

lemma index_values_ok:
  assumes "graph_inv g"
  shows "\<forall>e \<in> set (index g). snd e < count g"
proof
  fix e assume "e \<in> set (index g)"
  then have "snd e \<in> set (map snd (index g))" by simp
  with assms show "snd e < count g" by (simp add: graph_inv_def)
qed

lemma Rank_from_spec:
  assumes "graph_inv g" "fresh g"
  shows "Rank_from invN fuel \<alpha> \<epsilon> g = None \<or>
         (\<exists>st k. rank_loop fuel \<alpha> \<epsilon> invN (initialize invN (map normalize (nodes g))) = Some (Inr st) \<and>
            k \<le> fuel \<and>
            iterations k \<alpha> invN (initialize invN (map normalize (nodes g))) = Inr st \<and>
            rank_inv (map normalize (nodes g)) st \<and> st_Delta st \<le> \<epsilon> \<and>
            Rank_from invN fuel \<alpha> \<epsilon> g =
              Some (Inr (g\<lparr>nodes := st_nodes st\<rparr>, map (\<lambda>e. (fst e, cur st (snd e))) (index g))))"
proof -
  let ?nz = "map normalize (nodes g)"
  have w0: "\<forall>i < length ?nz. weight (?nz ! i) = (0, 0)"
    using assms(2) by (simp add: fresh_def)
  note ok = targets_ok_normalize[OF assms(1)]
  from rank_loop_inv[OF initialize_inv(1)[OF w0] ok, of fuel \<alpha> \<epsilon> invN invN] show ?thesis
  proof
    assume "rank_loop fuel \<alpha> \<epsilon> invN (initialize invN ?nz) = None"
    then show ?thesis by (simp add: Rank_from_def)
  next
    assume "\<exists>st' k. rank_loop fuel \<alpha> \<epsilon> invN (initialize invN ?nz) = Some (Inr st') \<and> k \<le> fuel \<and>
                  iterations k \<alpha> invN (initialize invN ?nz) = Inr st' \<and> rank_inv ?nz st' \<and> st_Delta st' \<le> \<epsilon>"
    then obtain st k where 1: "rank_loop fuel \<alpha> \<epsilon> invN (initialize invN ?nz) = Some (Inr st)"
      "k \<le> fuel" "iterations k \<alpha> invN (initialize invN ?nz) = Inr st" "rank_inv ?nz st"
      "st_Delta st \<le> \<epsilon>" by blast
    have len: "length (st_nodes st) = count g" using 1(4) assms(1)
      by (simp add: rank_inv_def graph_inv_def)
    have "\<forall>e \<in> set (index g). snd e < length (st_nodes st)"
      using index_values_ok[OF assms(1)] len by simp
    from emit_spec[OF this, of "st_a st"]
    have "Rank_from invN fuel \<alpha> \<epsilon> g =
              Some (Inr (g\<lparr>nodes := st_nodes st\<rparr>, map (\<lambda>e. (fst e, cur st (snd e))) (index g)))"
      using 1(1) by (simp add: Rank_from_def cur_def)
    with 1 show ?thesis by blast
  qed
qed

lemma edge_weight_Cons:
  "edge_weight ((t', w) # es) t = (if t = t' then w else edge_weight es t)"
  by (simp add: edge_weight_def)

lemma inflow_distinct: "distinct (map fst es) \<Longrightarrow> inflow es t = edge_weight es t"
proof (induction es)
  case Nil
  then show ?case by (simp add: edge_weight_def)
next
  case (Cons e es)
  obtain t' w where e: "e = (t', w)" by (cases e)
  from Cons.prems e have "t' \<notin> fst ` set es" by simp
  then have "edge_weight es t' = 0" by (rule edge_weight_absent)
  with Cons show ?case by (auto simp: e edge_weight_Cons)
qed

lemma sum_filter_lt: "(\<Sum>s | s < (N::nat) \<and> P s. f s) = (\<Sum>s < N. if P s then f s else (0::real))"
proof -
  have eq: "{s. s < N \<and> P s} = {s \<in> {..<N}. P s}" by auto
  show ?thesis unfolding eq by (rule sum.inter_filter) simp
qed

lemma Link_observed:
  assumes "graph_inv g"
  shows "\<exists>g'. Link source target w g = Inr g' \<and> graph_inv g' \<and>
           source \<in> fst ` set (index g') \<and> target \<in> fst ` set (index g') \<and>
           outbound_of g' source = outbound_of g source + w \<and>
           edge_of g' source target = edge_of g source target + w"
proof -
  from Link_props[OF assms, of source target w]
  obtain g' s t where 1: "Link source target w g = Inr g'" and 2: "graph_inv g'"
    and 3: "map_of (index g') source = Some s" and 4: "map_of (index g') target = Some t"
    and 5: "count g \<le> count g'"
    and 6: "nodes g' ! s = link_node t w (case map_of (index g) source of None \<Rightarrow> Node64_zero | Some i \<Rightarrow> nodes g ! i)"
    and 7: "\<forall>j < count g'. j \<noteq> s \<longrightarrow> nodes g' ! j = (if j < count g then nodes g ! j else Node64_zero)"
    and 8: "map_of (index g) target = None \<longrightarrow> t \<ge> count g"
    and 9: "\<forall>j. map_of (index g) target = Some j \<longrightarrow> t = j"
    by (elim exE conjE)
  let ?n0 = "case map_of (index g) source of None \<Rightarrow> Node64_zero | Some i \<Rightarrow> nodes g ! i"
  have ob: "outbound ?n0 = outbound_of g source"
    by (simp add: outbound_of_def Node64_zero_def split: option.splits)
  have ed: "edge_weight (edges ?n0) t = edge_of g source target"
  proof (cases "map_of (index g) source")
    case None
    then show ?thesis by (simp add: edge_of_def Node64_zero_def edge_weight_def)
  next
    case (Some i)
    show ?thesis
    proof (cases "map_of (index g) target")
      case None
      from graph_inv_nth[OF assms index_value_lt[OF assms Some]] 8 None
      have "t \<notin> fst ` set (edges (nodes g ! i))" by (auto simp: node_ok_def)
      then have "edge_weight (edges (nodes g ! i)) t = 0" by (rule edge_weight_absent)
      with Some None show ?thesis by (simp add: edge_of_def)
    next
      case (Some j)
      with 9 \<open>map_of (index g) source = Some i\<close> show ?thesis by (simp add: edge_of_def)
    qed
  qed
  have a: "outbound_of g' source = outbound_of g source + w"
    using 3 6 ob by (simp add: outbound_of_def link_node_def)
  have b: "edge_of g' source target = edge_of g source target + w"
    using 3 4 6 ed by (simp add: edge_of_def link_node_def edge_weight_update)
  have c: "source \<in> fst ` set (index g')" and d: "target \<in> fst ` set (index g')"
    using 3 4 by (auto dest!: map_of_SomeD intro: rev_image_eqI)
  show ?thesis by (intro exI[of _ g'] conjI) (fact 1 2 a b c d)+
qed

lemma Rank_from_no_panic:
  assumes "graph_inv g" "fresh g"
  shows "Rank_from invN fuel \<alpha> \<epsilon> g \<noteq> Some (Inl e)"
  using Rank_from_spec[OF assms, of invN fuel \<alpha> \<epsilon>] by auto

lemma sum_list_normalized:
  "sum_list (map (snd \<circ> (\<lambda>(t, w). (t, w / c))) es) = sum_list (map snd es) / (c::real)"
  by (induction es) (auto simp: add_divide_distrib)

lemma normalize_sum:
  assumes "outbound node = sum_list (map snd (edges node))" "outbound node > 0"
  shows "sum_list (map snd (edges (normalize node))) = 1"
  using assms by (simp add: normalize_def sum_list_normalized)

lemma Rank_keeps_edges:
  assumes "graph_inv g" "fresh g" "Rank_from invN fuel \<alpha> \<epsilon> g = Some (Inr (g', calls))"
    "i < length (nodes g)"
  shows "edges (nodes g' ! i) = edges (normalize (nodes g ! i))"
    "outbound (nodes g' ! i) = outbound (nodes g ! i)"
proof -
  from Rank_from_spec[OF assms(1,2), of invN fuel \<alpha> \<epsilon>] assms(3)
  obtain st where inv: "rank_inv (map normalize (nodes g)) st"
    and r: "Rank_from invN fuel \<alpha> \<epsilon> g =
              Some (Inr (g\<lparr>nodes := st_nodes st\<rparr>, map (\<lambda>e. (fst e, cur st (snd e))) (index g)))"
    by auto
  from r assms(3) have g': "g' = g\<lparr>nodes := st_nodes st\<rparr>" by simp
  show "edges (nodes g' ! i) = edges (normalize (nodes g ! i))"
    "outbound (nodes g' ! i) = outbound (nodes g ! i)"
    using inv assms(4) unfolding g' by (simp_all add: rank_inv_def)
qed


lemma normalized_distinct:
  assumes "graph_inv g" "i < length (nodes g)"
  shows "distinct (map fst (edges (map normalize (nodes g) ! i)))"
proof -
  from assms have "node_ok (count g) (nodes g ! i)" by (auto simp: graph_inv_def)
  with assms(2) show ?thesis by (simp add: node_ok_def)
qed

lemma inflow_sum_edges:
  assumes "distinct (map fst (edges (ns ! s)))" 
  shows "x * inflow (edges (ns ! s)) t =
         (if t \<in> fst ` set (edges (ns ! s)) then x * edge_weight (edges (ns ! s)) t else 0)"
  using assms by (simp add: inflow_distinct edge_weight_absent)

lemma built_initial:
  assumes "Links ls NewGraph64 = Inr g"
  shows "rank_inv (map normalize (nodes g)) (initialize invN (map normalize (nodes g)))"
    "targets_ok (map normalize (nodes g))"
proof -
  note inv = built(1)[OF assms] and fr = built(2)[OF assms]
  have "\<forall>i < length (map normalize (nodes g)). weight (map normalize (nodes g) ! i) = (0, 0)"
    using fr by (simp add: fresh_def)
  then show "rank_inv (map normalize (nodes g)) (initialize invN (map normalize (nodes g)))"
    by (rule initialize_inv(1))
  show "targets_ok (map normalize (nodes g))" by (rule targets_ok_normalize[OF inv])
qed

lemma built_iterations:
  assumes "Links ls NewGraph64 = Inr g"
    "iterations k \<alpha> invN (initialize invN (map normalize (nodes g))) = Inr st"
  shows "rank_inv (map normalize (nodes g)) st"
  using iterations_inv[OF built_initial[OF assms(1)], of k \<alpha> invN invN] assms(2) by auto

subsection \<open>Conservation and contraction\<close>

lemma iteration_transition:
  assumes "rank_inv nz st" "targets_ok nz" "iteration \<alpha> (1 / real (length nz)) st = Inr st'"
  shows "rank_inv nz st'"
    "\<forall>j < length nz. cur st' j =
        \<alpha> * (\<Sum>i < length nz. cur st i * transition nz i j) + (1 - \<alpha>) / real (length nz)"
    "st_Delta st' = (\<Sum>i < length nz. \<bar>cur st i - cur st' i\<bar>)"
proof -
  let ?N = "length nz"
  from iteration_spec[OF assms(1,2), of \<alpha> "1 / real ?N"] assms(3)
  have inv': "rank_inv nz st'"
    and c: "\<forall>j < ?N. cur st' j = \<alpha> * (\<Sum>i < ?N. cur st i * inflow (edges (nz ! i)) j)
                + adjustment_of \<alpha> (1 / real ?N) (st_leak st)"
    and d: "st_Delta st' = (\<Sum>i < ?N. \<bar>cur st i - cur st' i\<bar>)"
    by auto
  show "rank_inv nz st'" by (rule inv')
  show "st_Delta st' = (\<Sum>i < ?N. \<bar>cur st i - cur st' i\<bar>)" by (rule d)
  have lk: "st_leak st = (\<Sum>i < ?N. if outbound (nz ! i) = 0 then cur st i else 0)"
    using assms(1) by (simp add: rank_inv_def)
  have split: "(\<Sum>i < ?N. cur st i * transition nz i j)
      = (\<Sum>i < ?N. cur st i * inflow (edges (nz ! i)) j) + st_leak st / real ?N" for j
  proof -
    have "(\<Sum>i < ?N. cur st i * transition nz i j)
        = (\<Sum>i < ?N. cur st i * inflow (edges (nz ! i)) j
                    + (if outbound (nz ! i) = 0 then cur st i else 0) / real ?N)"
      by (rule sum.cong) (simp_all add: transition_def distrib_left)
    also have "\<dots> = (\<Sum>i < ?N. cur st i * inflow (edges (nz ! i)) j)
                  + (\<Sum>i < ?N. (if outbound (nz ! i) = 0 then cur st i else 0) / real ?N)"
      by (rule sum.distrib)
    also have "(\<Sum>i < ?N. (if outbound (nz ! i) = 0 then cur st i else 0) / real ?N)
             = st_leak st / real ?N"
      unfolding lk by (rule sum_divide_distrib[symmetric])
    finally show ?thesis .
  qed
  show "\<forall>j < ?N. cur st' j =
        \<alpha> * (\<Sum>i < ?N. cur st i * transition nz i j) + (1 - \<alpha>) / real ?N"
    using c unfolding split by (simp add: adjustment_of_def distrib_left)
qed

lemma row_sum:
  assumes "\<forall>e \<in> set es. fst e < N"
  shows "(\<Sum>j < N. inflow es j) = sum_list (map snd es)"
  using assms
proof (induction es)
  case Nil
  then show ?case by simp
next
  case (Cons e es)
  obtain t w where e: "e = (t, w)" by (cases e)
  from Cons.prems e have t: "t < N" by simp
  have "(\<Sum>j < N. inflow (e # es) j) = (\<Sum>j < N. if t = j then w else 0) + (\<Sum>j < N. inflow es j)"
    by (simp add: e sum.distrib)
  also have "(\<Sum>j < N. if t = j then w else 0) = w" using t by simp
  finally show ?case using Cons by (simp add: e)
qed

lemma inflow_nonneg: "\<forall>e \<in> set es. 0 \<le> snd e \<Longrightarrow> 0 \<le> inflow es j"
  unfolding inflow_def by (rule sum_list_nonneg) auto

lemma normalize_nonneg:
  assumes "\<forall>e \<in> set (edges node). 0 \<le> snd e"
  shows "\<forall>e \<in> set (edges (normalize node)). 0 \<le> snd e"
  using assms by (auto simp: normalize_def)

lemma transition_stochastic:
  assumes "graph_inv g" "fresh g" "nonneg g" "1 \<le> length (nodes g)" "i < length (nodes g)"
  shows "(\<Sum>j < length (nodes g). transition (map normalize (nodes g)) i j) = 1"
    "0 \<le> transition (map normalize (nodes g)) i j"
proof -
  let ?N = "length (nodes g)" and ?n = "nodes g ! i"
  have mem: "?n \<in> set (nodes g)" using assms(5) by simp
  have nn: "\<forall>e \<in> set (edges ?n). 0 \<le> snd e" using assms(3) mem by (simp add: nonneg_def)
  have ob: "outbound ?n = sum_list (map snd (edges ?n))" using assms(2) mem by (simp add: fresh_def)
  have ob0: "0 \<le> outbound ?n" unfolding ob by (rule sum_list_nonneg) (use nn in auto)
  have tg: "\<forall>e \<in> set (edges (normalize ?n)). fst e < ?N"
    using targets_ok_normalize[OF assms(1)] assms(5) by (simp add: targets_ok_def)
  have rs: "(\<Sum>j < ?N. inflow (edges (normalize ?n)) j) = sum_list (map snd (edges (normalize ?n)))"
    by (rule row_sum[OF tg])
  have "(\<Sum>j < ?N. transition (map normalize (nodes g)) i j)
      = (\<Sum>j < ?N. inflow (edges (normalize ?n)) j)
        + (\<Sum>j < ?N. if outbound ?n = 0 then 1 / real ?N else 0)"
    using assms(5) by (simp add: transition_def sum.distrib)
  also have "\<dots> = 1"
  proof (cases "outbound ?n = 0")
    case True
    then have "normalize ?n = ?n" by (simp add: normalize_def)
    moreover have "nodes g \<noteq> []" using assms(4) by auto
    ultimately show ?thesis using rs True ob by simp
  next
    case False
    with ob0 have "outbound ?n > 0" by simp
    from normalize_sum[OF ob this] rs False show ?thesis by simp
  qed
  finally show "(\<Sum>j < ?N. transition (map normalize (nodes g)) i j) = 1" .
  have "0 \<le> inflow (edges (normalize ?n)) j"
    by (rule inflow_nonneg[OF normalize_nonneg[OF nn]])
  then show "0 \<le> transition (map normalize (nodes g)) i j"
    using assms(5) by (simp add: transition_def)
qed

lemma step_conserves:
  assumes st: "\<forall>i < N. (\<Sum>j < N. M i j) = (1::real)"
    and x': "\<forall>j < N. x' j = \<alpha> * (\<Sum>i < N. x i * M i j) + (1 - \<alpha>) / real N"
    and x: "(\<Sum>i < N. x i) = 1" and N: "1 \<le> N"
  shows "(\<Sum>j < N. x' j) = 1"
proof -
  have "(\<Sum>j < N. x' j) = (\<Sum>j < N. \<alpha> * (\<Sum>i < N. x i * M i j) + (1 - \<alpha>) / real N)"
    by (rule sum.cong) (simp_all add: x')
  also have "\<dots> = \<alpha> * (\<Sum>j < N. \<Sum>i < N. x i * M i j) + (1 - \<alpha>)"
    using N by (simp add: sum.distrib sum_distrib_left)
  also have "(\<Sum>j < N. \<Sum>i < N. x i * M i j) = (\<Sum>i < N. \<Sum>j < N. x i * M i j)"
    by (rule sum.swap)
  also have "\<dots> = (\<Sum>i < N. x i * (\<Sum>j < N. M i j))"
    by (simp add: sum_distrib_left)
  also have "\<dots> = (\<Sum>i < N. x i)"
    by (rule sum.cong) (simp_all add: st)
  finally show ?thesis using x by simp
qed


lemma built_stochastic:
  assumes "Links ls NewGraph64 = Inr g" "\<forall>l \<in> set ls. 0 \<le> snd (snd l)" "1 \<le> length (nodes g)"
  shows "\<forall>i < length (nodes g). (\<Sum>j < length (nodes g). transition (map normalize (nodes g)) i j) = 1"
    "\<forall>i < length (nodes g). \<forall>j. 0 \<le> transition (map normalize (nodes g)) i j"
  using transition_stochastic[OF built[OF assms(1)] built_nonneg[OF assms(1,2)] assms(3)]
  by blast+

lemma iteration_sum:
  assumes "Links ls NewGraph64 = Inr g" "\<forall>l \<in> set ls. 0 \<le> snd (snd l)" "1 \<le> length (nodes g)"
    and "rank_inv (map normalize (nodes g)) st" "(\<Sum>i < length (nodes g). cur st i) = 1"
    and "iteration \<alpha> (1 / real (length (nodes g))) st = Inr st'"
  shows "rank_inv (map normalize (nodes g)) st'" "(\<Sum>i < length (nodes g). cur st' i) = 1"
proof -
  let ?nz = "map normalize (nodes g)"
  have it: "iteration \<alpha> (1 / real (length ?nz)) st = Inr st'" using assms(6) by simp
  note t = iteration_transition[OF assms(4) built_initial(2)[OF assms(1)] it]
  show "rank_inv ?nz st'" by (rule t(1))
  have x': "\<forall>j < length (nodes g). cur st' j =
      \<alpha> * (\<Sum>i < length (nodes g). cur st i * transition ?nz i j) + (1 - \<alpha>) / real (length (nodes g))"
    using t(2) by simp
  show "(\<Sum>i < length (nodes g). cur st' i) = 1"
    by (rule step_conserves[OF built_stochastic(1)[OF assms(1,2,3)] x' assms(5,3)])
qed

lemma initialize_sum:
  assumes "1 \<le> length ns"
  shows "(\<Sum>i < length ns. cur (initialize (1 / real (length ns)) ns) i) = 1"
proof -
  have "(\<Sum>i < length ns. cur (initialize (1 / real (length ns)) ns) i)
      = (\<Sum>i < length ns. 1 / real (length ns))"
    by (rule sum.cong) (simp_all add: cur_def initialize_def)
  also have "\<dots> = 1" using assms by (cases ns) simp_all
  finally show ?thesis .
qed

lemma iterations_sum:
  assumes "Links ls NewGraph64 = Inr g" "\<forall>l \<in> set ls. 0 \<le> snd (snd l)" "1 \<le> length (nodes g)"
    and "rank_inv (map normalize (nodes g)) st" "(\<Sum>i < length (nodes g). cur st i) = 1"
    and "iterations k \<alpha> (1 / real (length (nodes g))) st = Inr st'"
  shows "(\<Sum>i < length (nodes g). cur st' i) = 1"
  using assms(4,5,6)
proof (induction k arbitrary: st)
  case 0
  then show ?case by simp
next
  case (Suc k)
  from iteration_spec[OF Suc.prems(1) built_initial(2)[OF assms(1)], of \<alpha> "1 / real (length (nodes g))"]
  obtain st1 where 1: "iteration \<alpha> (1 / real (length (nodes g))) st = Inr st1" by auto
  note s = iteration_sum[OF assms(1,2,3) Suc.prems(1,2) 1]
  from Suc.prems(3) 1 have "iterations k \<alpha> (1 / real (length (nodes g))) st1 = Inr st'" by simp
  from Suc.IH[OF s this] show ?case .
qed

lemma calls_sum:
  assumes "graph_inv g"
  shows "sum_list (map snd (map (\<lambda>e. (fst e, f (snd e))) (index g))) = (\<Sum>i < length (nodes g). f i :: real)"
proof -
  have "map snd (map (\<lambda>e. (fst e, f (snd e))) (index g)) = map f (map snd (index g))"
    by (simp add: o_def)
  also have "map snd (index g) = [0..<length (nodes g)]" using assms by (simp add: graph_inv_def)
  finally show ?thesis by (simp add: sum_list_upt)
qed







subsection \<open>Concrete runs\<close>

lemmas eval_defs = Link_def lookup_or_append_def NewGraph64_def Node64_zero_def edge_weight_def
  Rank_def Rank_from_def initialize_def normalize_def iteration_def update_def
  adjustment_of_def delta_of_def leak_of_def wget_def wset_def Let_def

lemma rank_loop_fuel_mono:
  "rank_loop n \<alpha> \<epsilon> invN st = Some r \<Longrightarrow> n \<le> m \<Longrightarrow> rank_loop m \<alpha> \<epsilon> invN st = Some r"
proof (induction n arbitrary: m st)
  case 0
  then show ?case by (cases m) (auto split: if_splits)
next
  case (Suc n)
  from Suc.prems(2) obtain m' where m: "m = Suc m'" "n \<le> m'" by (cases m) auto
  show ?case
  proof (cases "st_Delta st > \<epsilon>")
    case True
    show ?thesis
    proof (cases "iteration \<alpha> invN st")
      case (Inl e)
      with True Suc.prems(1) show ?thesis by (auto simp: m)
    next
      case (Inr st1)
      with True Suc.prems(1) have "rank_loop n \<alpha> \<epsilon> invN st1 = Some r" by simp
      from Suc.IH[OF this m(2)] True Inr show ?thesis by (simp add: m)
    qed
  next
    case False
    with Suc.prems(1) show ?thesis by (simp add: m)
  qed
qed

lemma Rank_fuel_mono:
  assumes "Rank n \<alpha> \<epsilon> g = Some r" "n \<le> m"
  shows "Rank m \<alpha> \<epsilon> g = Some r"
proof -
  let ?q = "1 / real (length (nodes g))"
  obtain x where x: "rank_loop n \<alpha> \<epsilon> ?q (initialize ?q (map normalize (nodes g))) = Some x"
    using assms(1) by (auto simp: Rank_def Rank_from_def split: option.splits)
  from rank_loop_fuel_mono[OF x assms(2)] x assms(1) show ?thesis
    by (simp add: Rank_def Rank_from_def)
qed

lemma chain_links: "Links [(1, 2, 1), (2, 3, 1)] NewGraph64 = Inr chain_graph"
  by (simp add: eval_defs chain_graph_def)








lemma cycle_links: "Links [(1, 2, 2), (2, 1, 2)] NewGraph64 = Inr cycle_graph"
  by (simp add: eval_defs cycle_graph_def)

lemma cycle_first_run:
  "Rank 1 (1 / 2) (1 / 10) cycle_graph = Some (Inr (cycle_graph_ranked, [(1, 1 / 2), (2, 1 / 2)]))"
  by (simp add: eval_defs cycle_graph_def cycle_graph_ranked_def upt_rec)

lemma cycle_second_run:
  "Rank 4 (1 / 2) (1 / 10) cycle_graph_ranked =
     Some (Inr (cycle_graph_reranked, [(1, 175 / 512), (2, 175 / 512)]))"
  by (simp add: eval_defs cycle_graph_ranked_def cycle_graph_reranked_def upt_rec eval_nat_numeral)

lemma cycle_second_initialize:
  "initialize (1 / 2) (map normalize (nodes cycle_graph_ranked)) = cycle_second_start"
  by (simp add: eval_defs cycle_graph_ranked_def cycle_second_start_def)

lemma cycle_second_pass:
  "update_pass (1 / 2) 0 1 (adjustment_of (1 / 2) (1 / 2) 0) [0..<2] (st_nodes cycle_second_start)
     = Inr [\<lparr>weight = (1 / 2, 7 / 8), outbound = 2, edges = [(1, 1 / 2)]\<rparr>,
            \<lparr>weight = (1 / 2, 7 / 8), outbound = 2, edges = [(0, 1 / 2)]\<rparr>]"
  by (simp add: eval_defs cycle_second_start_def upt_rec)

lemma cycle_second_iteration:
  "iteration (1 / 2) (1 / 2) cycle_second_start = Inr cycle_second_turn"
  by (simp add: eval_defs cycle_second_start_def cycle_second_turn_def upt_rec)

lemma chain_first_turn:
  "iterations (Suc 0) (1 / 2) (1 / real 3) (initialize (1 / real 3) (map normalize (nodes chain_graph)))
     = Inr chain_state"
  by (simp add: eval_defs chain_graph_def chain_state_def upt_rec)

lemma chain_run:
  "Rank 5 (1 / 2) (1 / 10) chain_graph = Some (Inr
     (chain_graph\<lparr>nodes := [\<lparr>weight = (25 / 108, 0), outbound = 1, edges = [(1, 1)]\<rparr>,
              \<lparr>weight = (37 / 108, 0), outbound = 1, edges = [(2, 1)]\<rparr>,
              \<lparr>weight = (23 / 54, 0), outbound = 0, edges = []\<rparr>]\<rparr>,
      [(1, 25 / 108), (2, 37 / 108), (3, 23 / 54)]))"
  by (simp add: eval_defs chain_graph_def upt_rec eval_nat_numeral)

lemma chain_nonneg: "\<forall>l \<in> set [(1::64 word, 2::64 word, 1::real), (2, 3, 1)]. 0 \<le> snd (snd l)"
  by simp

lemma chain_length: "3 = length (nodes chain_graph)"
  by (simp add: chain_graph_def)

subsection \<open>The two variants in lockstep\<close>

lemma map_entry_nth:
  "distinct (map fst al) \<Longrightarrow> i < length al \<Longrightarrow>
   AList.map_entry (fst (al ! i)) f al = al[i := (fst (al ! i), f (snd (al ! i)))]"
proof (induction al arbitrary: i)
  case Nil
  then show ?case by simp
next
  case (Cons p al)
  show ?case
  proof (cases i)
    case 0
    then show ?thesis by simp
  next
    case (Suc j)
    with Cons.prems have j: "j < length al" by simp
    then have "fst (al ! j) \<in> fst ` set al" by (metis nth_mem image_eqI)
    moreover have "fst p \<notin> fst ` set al" using Cons.prems(1) by simp
    ultimately have "fst p \<noteq> fst (al ! j)" by metis
    with Cons.IH[of j] Cons.prems(1) j Suc show ?thesis by simp
  qed
qed

lemma map_of_nth:
  "distinct (map fst al) \<Longrightarrow> i < length al \<Longrightarrow> map_of al (fst (al ! i)) = Some (snd (al ! i))"
  by (simp add: map_of_eq_Some_iff)

lemma map_entry_keys: "map fst (AList.map_entry k f al) = map fst al"
  by (induction al) auto

lemma wrel_step:
  assumes "wrel b ids ns xs" "distinct ids" "t < length ids"
  shows "wrel b ids (AList.map_entry (ids ! t) (\<lambda>n. n\<lparr>weight_s := weight_s n + v\<rparr>) ns)
                    (xs[t := wset b (wget b (xs ! t) + v) (xs ! t)])"
    "map_of ns (ids ! t) = Some (snd (ns ! t))"
proof -
  have k: "map fst ns = ids" and lx: "length xs = length ids"
    and w: "\<forall>i < length ids. weight_s (snd (ns ! i)) = wget b (xs ! i) \<and>
                       outbound_s (snd (ns ! i)) = outbound (xs ! i)"
    using assms(1) by (simp_all add: wrel_def)
  have ln: "length ns = length ids" using k by (metis length_map)
  have d: "distinct (map fst ns)" using k assms(2) by simp
  have t: "t < length ns" using assms(3) ln by simp
  have kt: "ids ! t = fst (ns ! t)" using k t by (metis nth_map)
  show "map_of ns (ids ! t) = Some (snd (ns ! t))" unfolding kt by (rule map_of_nth[OF d t])
  have me: "AList.map_entry (ids ! t) (\<lambda>n. n\<lparr>weight_s := weight_s n + v\<rparr>) ns
      = ns[t := (fst (ns ! t), (snd (ns ! t))\<lparr>weight_s := weight_s (snd (ns ! t)) + v\<rparr>)]"
    unfolding kt by (rule map_entry_nth[OF d t])
  show "wrel b ids (AList.map_entry (ids ! t) (\<lambda>n. n\<lparr>weight_s := weight_s n + v\<rparr>) ns)
                    (xs[t := wset b (wget b (xs ! t) + v) (xs ! t)])"
    unfolding wrel_def
  proof (intro conjI allI impI)
    show "map fst (AList.map_entry (ids ! t) (\<lambda>n. n\<lparr>weight_s := weight_s n + v\<rparr>) ns) = ids"
      using k by (simp add: map_entry_keys)
    show "length (xs[t := wset b (wget b (xs ! t) + v) (xs ! t)]) = length ids" using lx by simp
  next
    fix i assume i: "i < length ids"
    show "weight_s (snd (AList.map_entry (ids ! t) (\<lambda>n. n\<lparr>weight_s := weight_s n + v\<rparr>) ns ! i))
        = wget b (xs[t := wset b (wget b (xs ! t) + v) (xs ! t)] ! i)"
      unfolding me using i w ln lx by (cases "i = t") simp_all
    show "outbound_s (snd (AList.map_entry (ids ! t) (\<lambda>n. n\<lparr>weight_s := weight_s n + v\<rparr>) ns ! i))
        = outbound (xs[t := wset b (wget b (xs ! t) + v) (xs ! t)] ! i)"
      unfolding me using i w ln lx by (cases "i = t") simp_all
  qed
qed

lemma push_lockstep:
  assumes "wrel b ids ns xs" "distinct ids" "\<forall>e \<in> set m. fst e < length ids"
  shows "\<exists>ns' xs'. push_s c (relabel ids m) ns = Inr ns' \<and> push b c m xs = Inr xs' \<and>
                   wrel b ids ns' xs'"
  using assms(1,3)
proof (induction m arbitrary: ns xs)
  case Nil
  then show ?case by (simp add: relabel_def)
next
  case (Cons e m)
  obtain t w where e: "e = (t, w)" by (cases e)
  from Cons.prems(2) e have t: "t < length ids" by simp
  have lx: "length xs = length ids" using Cons.prems(1) by (simp add: wrel_def)
  note s = wrel_step(1)[OF Cons.prems(1) assms(2) t, where v = "c * w"]
    wrel_step(2)[OF Cons.prems(1) assms(2) t]
  have "\<forall>e \<in> set m. fst e < length ids" using Cons.prems(2) by simp
  from Cons.IH[OF s(1) this] obtain ns' xs' where
    1: "push_s c (relabel ids m)
          (AList.map_entry (ids ! t) (\<lambda>n. n\<lparr>weight_s := weight_s n + c * w\<rparr>) ns) = Inr ns'"
    and 2: "push b c m (xs[t := wset b (wget b (xs ! t) + c * w) (xs ! t)]) = Inr xs'"
    and 3: "wrel b ids ns' xs'" by blast
  have "push_s c (relabel ids (e # m)) ns = Inr ns'"
    using 1 s(2) by (simp add: relabel_def e)
  moreover have "push b c (e # m) xs = Inr xs'" using 2 t lx by (simp add: e)
  ultimately show ?case using 3 by blast
qed

lemma update_lockstep:
  assumes "wrel b ids ns xs" "distinct ids" "i < length ids"
    and "\<forall>e \<in> set (edges (xs ! i)). fst e < length ids"
    and "edges_of es (ids ! i) = relabel ids (edges (xs ! i))"
    and "edge_weight old (ids ! i) = wget a (xs ! i)"
  shows "\<exists>ns' xs'. update_s \<alpha> adj old es (ids ! i) ns = Inr ns' \<and>
                   update \<alpha> a b adj i xs = Inr xs' \<and> wrel b ids ns' xs'"
proof -
  from push_lockstep[OF assms(1,2,4), of "\<alpha> * wget a (xs ! i)"] obtain ns1 xs1 where
    1: "push_s (\<alpha> * wget a (xs ! i)) (relabel ids (edges (xs ! i))) ns = Inr ns1"
    and 2: "push b (\<alpha> * wget a (xs ! i)) (edges (xs ! i)) xs = Inr xs1"
    and 3: "wrel b ids ns1 xs1" by blast
  note s = wrel_step(1)[OF 3 assms(2,3), where v = adj]
  have "update_s \<alpha> adj old es (ids ! i) ns
      = Inr (AList.map_entry (ids ! i) (\<lambda>n. n\<lparr>weight_s := weight_s n + adj\<rparr>) ns1)"
    using 1 by (simp add: update_s_def assms(5,6))
  moreover have "update \<alpha> a b adj i xs = Inr (xs1[i := wset b (wget b (xs1 ! i) + adj) (xs1 ! i)])"
    using 2 by (simp add: update_def Let_def)
  ultimately show ?thesis using s by blast
qed

lemma pass_lockstep:
  assumes "distinct ids" "a \<noteq> b" "a < 2" "b < 2"
    and "\<forall>i < length ids. edges_of es (ids ! i) = relabel ids (edges (x0 ! i))"
    and "\<forall>i < length ids. edge_weight old (ids ! i) = wget a (x0 ! i)"
    and "targets_ok x0" "length x0 = length ids"
    and "wrel b ids ns xs"
    and "\<forall>i < length ids. edges (xs ! i) = edges (x0 ! i) \<and> wget a (xs ! i) = wget a (x0 ! i)"
    and "\<forall>i \<in> set is. i < length ids"
  shows "\<exists>ns' xs'. pass_s \<alpha> adj old es (map ((!) ids) is) ns = Inr ns' \<and>
                   update_pass \<alpha> a b adj is xs = Inr xs' \<and> wrel b ids ns' xs'"
  using assms(9,10,11)
proof (induction "is" arbitrary: ns xs)
  case Nil
  then show ?case by simp
next
  case (Cons i "is")
  from Cons.prems(3) have i: "i < length ids" by simp
  have lx: "length xs = length ids" using Cons.prems(1) by (simp add: wrel_def)
  have t: "\<forall>e \<in> set (edges (xs ! i)). fst e < length ids"
    using assms(7,8) Cons.prems(2) i by (simp add: targets_ok_def)
  have e: "edges_of es (ids ! i) = relabel ids (edges (xs ! i))"
    using assms(5) Cons.prems(2) i by simp
  have o: "edge_weight old (ids ! i) = wget a (xs ! i)"
    using assms(6) Cons.prems(2) i by simp
  from update_lockstep[OF Cons.prems(1) assms(1) i t e o, of \<alpha> adj] obtain ns1 xs1 where
    1: "update_s \<alpha> adj old es (ids ! i) ns = Inr ns1"
    and 2: "update \<alpha> a b adj i xs = Inr xs1" and 3: "wrel b ids ns1 xs1" by blast
  have t': "\<forall>e \<in> set (edges (xs ! i)). fst e < length xs" using t lx by simp
  have i': "i < length xs" using i lx by simp
  from update_spec[OF t' i', of \<alpha> a b adj] 2
  have 4: "\<forall>j < length xs. xs1 ! j =
              wadd b (\<alpha> * wget a (xs ! i) * inflow (edges (xs ! i)) j + (if i = j then adj else 0)) (xs ! j)"
    by simp
  have 5: "\<forall>j < length ids. edges (xs1 ! j) = edges (x0 ! j) \<and> wget a (xs1 ! j) = wget a (x0 ! j)"
    using 4 lx Cons.prems(2) assms(2,3,4) by simp
  have 6: "\<forall>i \<in> set is. i < length ids" using Cons.prems(3) by simp
  from Cons.IH[OF 3 5 6] obtain ns' xs' where
    "pass_s \<alpha> adj old es (map ((!) ids) is) ns1 = Inr ns'"
    "update_pass \<alpha> a b adj is xs1 = Inr xs'" "wrel b ids ns' xs'" by blast
  with 1 2 show ?case by simp
qed

lemma foldl_add_sum:
  "foldl (\<lambda>acc x. acc + f x) acc xs = acc + sum_list (map f xs :: real list)"
  by (induction xs arbitrary: acc) simp_all

lemma leak_s_sum:
  "foldl (\<lambda>leak (key, n). if outbound_s n = 0 then leak + weight_s n else leak) 0 ns
     = (\<Sum>i < length ns. if outbound_s (snd (ns ! i)) = 0 then weight_s (snd (ns ! i)) else 0)"
proof -
  have eq: "(\<lambda>leak (key, n). if outbound_s n = 0 then leak + weight_s n else leak)
      = (\<lambda>leak x. if outbound_s (snd x) = 0 then leak + weight_s (snd x) else leak)"
    by (auto simp: fun_eq_iff)
  show ?thesis unfolding eq by (simp add: foldl_cond_add sum_list_map_nth)
qed

lemma delta_s_sum:
  "foldl (\<lambda>\<Delta> (key, n). \<Delta> + \<bar>weight_s n - edge_weight old key\<bar>) 0 ns
     = (\<Sum>i < length ns. \<bar>weight_s (snd (ns ! i)) - edge_weight old (fst (ns ! i))\<bar>)"
proof -
  have eq: "(\<lambda>\<Delta> (key, n). \<Delta> + \<bar>weight_s n - edge_weight old key\<bar>)
      = (\<lambda>\<Delta> x. \<Delta> + \<bar>weight_s (snd x) - edge_weight old (fst x)\<bar>)"
    by (auto simp: fun_eq_iff)
  show ?thesis unfolding eq by (simp add: foldl_add_sum sum_list_map_nth)
qed

lemma iteration_lockstep:
  assumes "srel ids nz (ns, d) st" "distinct ids" "length nz = length ids" "targets_ok nz"
    and "\<forall>i < length ids. edges_of es (ids ! i) = relabel ids (edges (nz ! i))"
  shows "\<exists>s' st'. iteration_s \<alpha> invN es ns = Inr s' \<and> iteration \<alpha> invN st = Inr st' \<and>
                  srel ids nz s' st'"
proof -
  let ?N = "length ids" and ?xs = "st_nodes st" and ?a = "st_a st" and ?b = "st_b st"
  have inv: "rank_inv nz st" and k: "map fst ns = ids"
    and w: "\<forall>i < ?N. weight_s (snd (ns ! i)) = cur st i \<and> outbound_s (snd (ns ! i)) = outbound (nz ! i)"
    using assms(1) by (simp_all add: srel_def)
  have lx: "length ?xs = ?N" and ab: "?a \<noteq> ?b" "?a < 2" "?b < 2"
    and ed: "\<forall>i < ?N. edges (?xs ! i) = edges (nz ! i)"
    and ob: "\<forall>i < ?N. outbound (?xs ! i) = outbound (nz ! i)"
    and zb: "\<forall>i < ?N. wget ?b (?xs ! i) = 0"
    and lk: "st_leak st = (\<Sum>i < ?N. if outbound (nz ! i) = 0 then cur st i else 0)"
    using inv assms(3) by (simp_all add: rank_inv_def)
  have ln: "length ns = ?N" using k by (metis length_map)
  let ?old = "map (\<lambda>(key, n). (key, weight_s n)) ns"
  let ?zeroed = "map (\<lambda>(key, n). (key, n\<lparr>weight_s := 0\<rparr>)) ns"
  let ?leak = "foldl (\<lambda>leak (key, n). if outbound_s n = 0 then leak + weight_s n else leak) 0 ns"
  let ?adj = "adjustment_of \<alpha> invN (st_leak st)"
  have kold: "map fst ?old = ids" using k by (simp add: case_prod_beta o_def)
  have old: "edge_weight ?old (ids ! i) = cur st i" if i: "i < ?N" for i
  proof -
    have d: "distinct (map fst ?old)" using kold assms(2) by simp
    have i': "i < length ?old" using i ln by simp
    have "fst (ns ! i) = ids ! i" using k i ln by (metis nth_map)
    then have "?old ! i = (ids ! i, weight_s (snd (ns ! i)))"
      using i ln by (simp add: case_prod_beta)
    with map_of_nth[OF d i'] have "map_of ?old (ids ! i) = Some (weight_s (snd (ns ! i)))"
      by simp
    then show ?thesis using w i by (simp add: edge_weight_def)
  qed
  have leak: "?leak = st_leak st"
  proof -
    have "?leak = (\<Sum>i < ?N. if outbound_s (snd (ns ! i)) = 0 then weight_s (snd (ns ! i)) else 0)"
      by (simp add: leak_s_sum ln)
    also have "\<dots> = (\<Sum>i < ?N. if outbound (nz ! i) = 0 then cur st i else 0)"
      by (rule sum.cong) (simp_all add: w)
    finally show ?thesis using lk by simp
  qed
  have adj: "(1 - \<alpha>) * invN + ?leak * \<alpha> * invN = ?adj"
    by (simp add: leak adjustment_of_def mult.commute)
  have kz: "map fst ?zeroed = ids" using k by (simp add: case_prod_beta o_def)
  have wz: "wrel ?b ids ?zeroed ?xs"
    unfolding wrel_def using kz lx zb ob w ln by (simp add: case_prod_beta)
  have olda: "\<forall>i < ?N. edge_weight ?old (ids ! i) = wget ?a (?xs ! i)"
    using old by (simp add: cur_def)
  have edx: "\<forall>i < ?N. edges_of es (ids ! i) = relabel ids (edges (?xs ! i))"
    using assms(5) ed by simp
  have okx: "targets_ok ?xs" using assms(4) lx ed assms(3) by (simp add: targets_ok_def)
  have same: "\<forall>i < ?N. edges (?xs ! i) = edges (?xs ! i) \<and> wget ?a (?xs ! i) = wget ?a (?xs ! i)"
    by simp
  have up: "\<forall>i \<in> set [0..<?N]. i < ?N" by simp
  from pass_lockstep[OF assms(2) ab edx olda okx lx wz same up, of \<alpha> ?adj]
  obtain ns' xs' where
    ps: "pass_s \<alpha> ?adj ?old es (map ((!) ids) [0..<?N]) ?zeroed = Inr ns'"
    and pg: "update_pass \<alpha> ?a ?b ?adj [0..<?N] ?xs = Inr xs'"
    and wr: "wrel ?b ids ns' xs'" by blast
  have ids: "map ((!) ids) [0..<?N] = ids" by (rule map_nth)
  let ?d' = "foldl (\<lambda>\<Delta> (key, n). \<Delta> + \<bar>weight_s n - edge_weight ?old key\<bar>) 0 ns'"
  have kz': "map (fst \<circ> (\<lambda>(key, n). (key, n\<lparr>weight_s := 0\<rparr>))) ns = ids"
    using kz by simp
  have its: "iteration_s \<alpha> invN es ns = Inr (ns', ?d')"
    using ps unfolding ids by (simp add: iteration_s_def Let_def adj kz')
  let ?st' = "\<lparr>st_nodes = map (wset ?a 0) xs', st_a = ?b, st_b = ?a,
                  st_Delta = delta_of ?a ?b xs', st_leak = leak_of ?b xs'\<rparr>"
  have itg: "iteration \<alpha> invN st = Inr ?st'"
    using pg lx by (simp add: iteration_def Let_def)
  from iteration_spec[OF inv assms(4), of \<alpha> invN] itg have inv': "rank_inv nz ?st'" by auto
  from update_pass_state[OF inv assms(4), of \<alpha> ?adj] pg lx assms(3)
  have pos: "\<forall>j < ?N. xs' ! j =
              wadd ?b (\<alpha> * (\<Sum>i < length nz. cur st i * inflow (edges (nz ! i)) j) + ?adj) (?xs ! j)"
    and lx': "length xs' = ?N" by auto
  have k': "map fst ns' = ids" and w': "\<forall>i < ?N. weight_s (snd (ns' ! i)) = wget ?b (xs' ! i) \<and>
                       outbound_s (snd (ns' ! i)) = outbound (xs' ! i)"
    using wr by (simp_all add: wrel_def)
  have ln': "length ns' = ?N" using k' by (metis length_map)
  have c': "cur ?st' i = wget ?b (xs' ! i)" if "i < ?N" for i
    using that lx' ab by (simp add: cur_def)
  have o': "outbound (xs' ! i) = outbound (nz ! i)" if "i < ?N" for i
    using that pos ob by simp
  have a': "wget ?a (xs' ! i) = cur st i" if "i < ?N" for i
    using that pos ab by (simp add: cur_def)
  have "?d' = (\<Sum>i < ?N. \<bar>weight_s (snd (ns' ! i)) - edge_weight ?old (fst (ns' ! i))\<bar>)"
    by (simp add: delta_s_sum ln')
  also have "\<dots> = (\<Sum>i < ?N. \<bar>wget ?a (xs' ! i) - wget ?b (xs' ! i)\<bar>)"
  proof (rule sum.cong)
    fix i assume "i \<in> {..<?N}"
    then have i: "i < ?N" by simp
    have "fst (ns' ! i) = ids ! i" using k' i ln' by (metis nth_map)
    then show "\<bar>weight_s (snd (ns' ! i)) - edge_weight ?old (fst (ns' ! i))\<bar>
             = \<bar>wget ?a (xs' ! i) - wget ?b (xs' ! i)\<bar>"
      using w' old[OF i] a'[OF i] i by (simp add: abs_minus_commute)
  qed simp
  finally have d': "?d' = st_Delta ?st'" using lx' by (simp add: delta_of_sum)
  have "srel ids nz (ns', ?d') ?st'"
    unfolding srel_def using inv' k' w' c' o' d' by simp
  with its itg show ?thesis by blast
qed

lemma loop_lockstep:
  assumes "distinct ids" "length nz = length ids" "targets_ok nz"
    and "\<forall>i < length ids. edges_of es (ids ! i) = relabel ids (edges (nz ! i))"
    and "srel ids nz s st"
  shows "(loop_s fuel \<alpha> \<epsilon> invN es s = None \<and> rank_loop fuel \<alpha> \<epsilon> invN st = None) \<or>
         (\<exists>s' st'. loop_s fuel \<alpha> \<epsilon> invN es s = Some (Inr s') \<and>
                   rank_loop fuel \<alpha> \<epsilon> invN st = Some (Inr st') \<and> srel ids nz s' st')"
  using assms(5)
proof (induction fuel arbitrary: s st)
  case 0
  obtain ns d where s: "s = (ns, d)" by (cases s)
  from 0 s have d: "d = st_Delta st" by (simp add: srel_def)
  show ?case using 0 by (cases "st_Delta st > \<epsilon>") (auto simp: s d)
next
  case (Suc fuel)
  obtain ns d where s: "s = (ns, d)" by (cases s)
  from Suc.prems s have d: "d = st_Delta st" by (simp add: srel_def)
  show ?case
  proof (cases "st_Delta st > \<epsilon>")
    case True
    from iteration_lockstep[OF Suc.prems[unfolded s] assms(1,2,3,4), of \<alpha> invN]
    obtain s1 st1 where 1: "iteration_s \<alpha> invN es ns = Inr s1"
      and 2: "iteration \<alpha> invN st = Inr st1" and 3: "srel ids nz s1 st1" by blast
    from Suc.IH[OF 3] True 1 2 show ?thesis by (simp add: s d)
  next
    case False
    then show ?thesis using Suc.prems by (auto simp: s d)
  qed
qed

lemma edges_of_Cons:
  "edges_of ((source, m) # rest) k = (if k = source then m else edges_of rest k)"
  by (simp add: edges_of_def)

lemma normalize_s_spec:
  assumes "fst ` set es \<subseteq> fst ` set ns"
  shows "\<exists>es'. normalize_s ns es = Inr es' \<and>
           (\<forall>k. edges_of es' k =
              (case map_of ns k of
                 None \<Rightarrow> edges_of es k
               | Some n \<Rightarrow> if outbound_s n > 0
                           then map (\<lambda>(target, w). (target, w / outbound_s n)) (edges_of es k)
                           else edges_of es k))"
  using assms
proof (induction es)
  case Nil
  then show ?case by (auto simp: edges_of_def split: option.splits)
next
  case (Cons p rest)
  obtain source m where p: "p = (source, m)" by (cases p)
  from Cons.prems p have "source \<in> fst ` set ns" by simp
  then obtain n where n: "map_of ns source = Some n"
    by (metis map_of_eq_None_iff not_Some_eq)
  from Cons.prems have "fst ` set rest \<subseteq> fst ` set ns" by auto
  from Cons.IH[OF this] obtain rest' where
    1: "normalize_s ns rest = Inr rest'"
    and 2: "\<forall>k. edges_of rest' k =
              (case map_of ns k of
                 None \<Rightarrow> edges_of rest k
               | Some n \<Rightarrow> if outbound_s n > 0
                           then map (\<lambda>(target, w). (target, w / outbound_s n)) (edges_of rest k)
                           else edges_of rest k)" by blast
  let ?m' = "if outbound_s n > 0 then map (\<lambda>(target, w). (target, w / outbound_s n)) m else m"
  have "normalize_s ns (p # rest) = Inr ((source, ?m') # rest')"
    using 1 n by (simp add: p)
  moreover have "\<forall>k. edges_of ((source, ?m') # rest') k =
              (case map_of ns k of
                 None \<Rightarrow> edges_of (p # rest) k
               | Some n \<Rightarrow> if outbound_s n > 0
                           then map (\<lambda>(target, w). (target, w / outbound_s n)) (edges_of (p # rest) k)
                           else edges_of (p # rest) k)"
    using 2 n by (auto simp: p edges_of_Cons split: option.splits)
  ultimately show ?case by blast
qed

lemma relabel_normalize:
  "relabel ids (edges (normalize node)) =
     (if outbound node > 0
      then map (\<lambda>(target, w). (target, w / outbound node)) (relabel ids (edges node))
      else relabel ids (edges node))"
  by (simp add: normalize_def relabel_def case_prod_beta)

lemma graph_inv_index:
  assumes "graph_inv g"
  shows "length (index g) = length (nodes g)" "distinct (map fst (index g))"
proof -
  have m: "map snd (index g) = [0..<length (nodes g)]" and d: "distinct (map fst (index g))"
    using assms(1) by (auto simp: graph_inv_def)
  show "length (index g) = length (nodes g)"
    using m by (metis length_map length_upt minus_nat.diff_0)
  show "distinct (map fst (index g))" by (rule d)
qed

lemma graph_inv_index_nth:
  assumes "graph_inv g" "i < length (nodes g)"
  shows "snd (index g ! i) = i"
proof -
  have m: "map snd (index g) = [0..<length (nodes g)]"
    using assms(1) by (auto simp: graph_inv_def)
  note len = graph_inv_index(1)[OF assms(1)]
  have "snd (index g ! i) = map snd (index g) ! i" using assms(2) len by simp
  also have "\<dots> = i" unfolding m using assms(2) by simp
  finally show "snd (index g ! i) = i" .
qed

lemma Rank_corr:
  assumes "graph_inv g" "fresh g" "corr g h"
  shows "(Rank fuel \<alpha> \<epsilon> g = None \<and> Graph_Rank fuel \<alpha> \<epsilon> h = None) \<or>
         (\<exists>g' h' calls. Rank fuel \<alpha> \<epsilon> g = Some (Inr (g', calls)) \<and>
                        Graph_Rank fuel \<alpha> \<epsilon> h = Some (Inr (h', calls)))"
proof -
  let ?ids = "map fst (index g)" and ?N = "length (nodes g)" and ?nz = "map normalize (nodes g)"
  let ?q = "1 / real (length (nodes g))"
  have keys: "map fst (nodes_s h) = ?ids"
    and ob: "\<forall>i < ?N. outbound_s (snd (nodes_s h ! i)) = outbound (nodes g ! i)"
    and ed: "\<forall>i < ?N. edges_of (edges_s h) (?ids ! i) = relabel ?ids (edges (nodes g ! i))"
    and sub: "fst ` set (edges_s h) \<subseteq> fst ` set (index g)"
    using assms(3) by (simp_all add: corr_def)
  have li: "length (index g) = ?N" and di: "distinct ?ids"
    using graph_inv_index[OF assms(1)] by auto
  have lids: "length ?ids = ?N" using li by simp
  have lh: "length (nodes_s h) = ?N" using keys lids by (metis length_map)
  have dh: "distinct (map fst (nodes_s h))" using keys di by simp
  have "fst ` set (edges_s h) \<subseteq> fst ` set (nodes_s h)"
  proof -
    have "fst ` set (nodes_s h) = set (map fst (nodes_s h))" by simp
    also have "\<dots> = fst ` set (index g)" unfolding keys by simp
    finally show ?thesis using sub by simp
  qed
  from normalize_s_spec[OF this] obtain es where
    nm: "normalize_s (nodes_s h) (edges_s h) = Inr es"
    and nk: "\<forall>k. edges_of es k =
              (case map_of (nodes_s h) k of
                 None \<Rightarrow> edges_of (edges_s h) k
               | Some n \<Rightarrow> if outbound_s n > 0
                           then map (\<lambda>(target, w). (target, w / outbound_s n)) (edges_of (edges_s h) k)
                           else edges_of (edges_s h) k)" by blast
  have es: "\<forall>i < length ?ids. edges_of es (?ids ! i) = relabel ?ids (edges (?nz ! i))"
  proof (intro allI impI)
    fix i assume "i < length ?ids"
    then have i: "i < ?N" using lids by simp
    have "fst (nodes_s h ! i) = ?ids ! i" using keys i lh by (metis nth_map)
    with map_of_nth[OF dh, of i] i lh
    have "map_of (nodes_s h) (?ids ! i) = Some (snd (nodes_s h ! i))" by simp
    then show "edges_of es (?ids ! i) = relabel ?ids (edges (?nz ! i))"
      using nk ob ed i by (simp add: relabel_normalize)
  qed
  let ?s0 = "(map (\<lambda>(key, n). (key, n\<lparr>weight_s := ?q\<rparr>)) (nodes_s h), 1::real)"
  let ?st0 = "initialize ?q ?nz"
  have w0: "\<forall>i < length ?nz. weight (?nz ! i) = (0, 0)" using assms(2) by (simp add: fresh_def)
  note i0 = initialize_inv[OF w0, of ?q]
  have s0: "srel ?ids ?nz ?s0 ?st0"
    unfolding srel_def using i0 keys ob lids lh by (simp add: case_prod_beta o_def)
  have ok: "targets_ok ?nz" by (rule targets_ok_normalize[OF assms(1)])
  have lnz: "length ?nz = length ?ids" using lids by simp
  from loop_lockstep[OF di lnz ok es s0, of fuel \<alpha> \<epsilon> ?q] show ?thesis
  proof
    assume "loop_s fuel \<alpha> \<epsilon> ?q es ?s0 = None \<and> rank_loop fuel \<alpha> \<epsilon> ?q ?st0 = None"
    then have "Rank fuel \<alpha> \<epsilon> g = None \<and> Graph_Rank fuel \<alpha> \<epsilon> h = None"
      using nm lh by (simp add: Rank_def Rank_from_def Graph_Rank_def Let_def)
    then show ?thesis ..
  next
    assume "\<exists>s' st'. loop_s fuel \<alpha> \<epsilon> ?q es ?s0 = Some (Inr s') \<and>
                   rank_loop fuel \<alpha> \<epsilon> ?q ?st0 = Some (Inr st') \<and> srel ?ids ?nz s' st'"
    then obtain s' st' where ls: "loop_s fuel \<alpha> \<epsilon> ?q es ?s0 = Some (Inr s')"
      and lg: "rank_loop fuel \<alpha> \<epsilon> ?q ?st0 = Some (Inr st')" and sr: "srel ?ids ?nz s' st'"
      by blast
    obtain ns' d' where s': "s' = (ns', d')" by (cases s')
    have inv': "rank_inv ?nz st'" and k': "map fst ns' = ?ids"
      and w': "\<forall>i < ?N. weight_s (snd (ns' ! i)) = cur st' i"
      using sr lids by (simp_all add: srel_def s')
    have ln': "length ns' = ?N" using k' lids by (metis length_map)
    have lst: "length (st_nodes st') = ?N" using inv' by (simp add: rank_inv_def)
    have "\<forall>e \<in> set (index g). snd e < length (st_nodes st')"
      using index_values_ok[OF assms(1)] lst assms(1) by (simp add: graph_inv_def)
    from emit_spec[OF this, of "st_a st'"]
    have em: "emit (st_a st') (st_nodes st') (index g)
                = Inr (map (\<lambda>e. (fst e, cur st' (snd e))) (index g))"
      by (simp add: cur_def)
    let ?calls = "map (\<lambda>e. (fst e, cur st' (snd e))) (index g)"
    have rg: "Rank fuel \<alpha> \<epsilon> g = Some (Inr (g\<lparr>nodes := st_nodes st'\<rparr>, ?calls))"
      using lg em by (simp add: Rank_def Rank_from_def)
    have calls: "map (\<lambda>(key, n). (key, weight_s n)) ns' = ?calls"
    proof (rule nth_equalityI)
      show "length (map (\<lambda>(key, n). (key, weight_s n)) ns') = length ?calls"
        using ln' li by simp
    next
      fix i assume "i < length (map (\<lambda>(key, n). (key, weight_s n)) ns')"
      then have i: "i < ?N" using ln' by simp
      have "map fst ns' ! i = ?ids ! i" using k' by simp
      then have "fst (ns' ! i) = fst (index g ! i)" using i ln' li by simp
      then show "map (\<lambda>(key, n). (key, weight_s n)) ns' ! i = ?calls ! i"
        using i ln' li w' graph_inv_index_nth[OF assms(1) i] by (simp add: case_prod_beta)
    qed
    have rs: "Graph_Rank fuel \<alpha> \<epsilon> h = Some (Inr (h\<lparr>edges_s := es, nodes_s := ns'\<rparr>, ?calls))"
      using nm ls lh calls by (simp add: Graph_Rank_def Let_def s')
    from rg rs show ?thesis by blast
  qed
qed

subsection \<open>Link in the two variants\<close>

lemma relabel_update:
  assumes "distinct ids" "t < length ids" "\<forall>e \<in> set m. fst e < length ids"
  shows "relabel ids (AList.update t v m) = AList.update (ids ! t) v (relabel ids m)"
  using assms(3)
proof (induction m)
  case Nil
  then show ?case by (simp add: relabel_def)
next
  case (Cons e m)
  obtain k x where e: "e = (k, x)" by (cases e)
  from Cons.prems e have k: "k < length ids" by simp
  have "ids ! k = ids ! t \<longleftrightarrow> k = t"
    using assms(1,2) k by (simp add: nth_eq_iff_index_eq)
  with Cons show ?case by (auto simp: relabel_def e)
qed

lemma relabel_prefix:
  assumes "\<forall>e \<in> set m. fst e < n" "take n ids' = ids"
  shows "relabel ids' m = relabel ids m"
proof -
  have "ids' ! j = ids ! j" if "j < n" for j
    using that assms(2) by (metis nth_take)
  then show ?thesis using assms(1) by (simp add: relabel_def)
qed

lemma edge_weight_relabel:
  assumes "distinct ids" "t < length ids" "\<forall>e \<in> set m. fst e < length ids"
  shows "edge_weight (relabel ids m) (ids ! t) = edge_weight m t"
  using assms(3)
proof (induction m)
  case Nil
  then show ?case by (simp add: relabel_def edge_weight_def)
next
  case (Cons e m)
  obtain k x where e: "e = (k, x)" by (cases e)
  from Cons.prems e have k: "k < length ids" by simp
  have "ids ! t = ids ! k \<longleftrightarrow> t = k"
    using assms(1,2) k by (simp add: nth_eq_iff_index_eq)
  with Cons show ?case by (auto simp: relabel_def e edge_weight_def)
qed

lemma update_new_keys:
  "map_of al k = None \<Longrightarrow> map fst (AList.update k v al) = ids_add k (map fst al)"
  by (simp add: update_keys ids_add_def map_of_eq_None_iff)

lemma ids_add_old: "k \<in> set ids \<Longrightarrow> ids_add k ids = ids"
  by (simp add: ids_add_def)

lemma map_of_Some_key: "map_of al k = Some v \<Longrightarrow> k \<in> set (map fst al)"
  by (metis map_of_eq_None_iff option.distinct(1) set_map)

lemma Graph_Link_keys:
  "map fst (nodes_s (Graph_Link source target w h))
     = ids_add target (ids_add source (map fst (nodes_s h)))"
proof -
  let ?nodes1 = "case map_of (nodes_s h) source of
                      None \<Rightarrow> AList.update source node_zero (nodes_s h)
                    | Some _ \<Rightarrow> nodes_s h"
  let ?nodes2 = "AList.map_entry source (\<lambda>n. n\<lparr>outbound_s := outbound_s n + w\<rparr>) ?nodes1"
  let ?nodes3 = "case map_of ?nodes2 target of
                      None \<Rightarrow> AList.update target node_zero ?nodes2
                    | Some _ \<Rightarrow> ?nodes2"
  have 1: "map fst ?nodes1 = ids_add source (map fst (nodes_s h))"
    by (auto simp: update_new_keys ids_add_old dest: map_of_Some_key split: option.splits)
  have 2: "map fst ?nodes2 = map fst ?nodes1" by (rule map_entry_keys)
  have 3: "map fst ?nodes3 = ids_add target (map fst ?nodes2)"
    by (auto simp: update_new_keys ids_add_old dest: map_of_Some_key split: option.splits)
  have "nodes_s (Graph_Link source target w h) = ?nodes3"
    by (simp add: Graph_Link_def Let_def)
  then show ?thesis using 1 2 3 by simp
qed

lemma Graph_Link_nodes:
  "map_of (nodes_s (Graph_Link source target w h)) k =
     (if k = source
      then Some ((case map_of (nodes_s h) source of None \<Rightarrow> node_zero | Some n \<Rightarrow> n)
                 \<lparr>outbound_s := outbound_s (case map_of (nodes_s h) source of
                                              None \<Rightarrow> node_zero | Some n \<Rightarrow> n) + w\<rparr>)
      else if k = target
      then Some (case map_of (nodes_s h) target of None \<Rightarrow> node_zero | Some n \<Rightarrow> n)
      else map_of (nodes_s h) k)"
  by (auto simp: Graph_Link_def Let_def update_conv' map_of_map_entry split: option.splits)

lemma Graph_Link_edges:
  "edges_of (edges_s (Graph_Link source target w h)) k =
     (if k = source
      then AList.update target (edge_weight (edges_of (edges_s h) source) target + w)
             (edges_of (edges_s h) source)
      else edges_of (edges_s h) k)"
  by (auto simp: Graph_Link_def Let_def edges_of_def update_conv' map_of_map_entry
           split: option.splits)

lemma Graph_Link_edge_keys:
  "fst ` set (edges_s (Graph_Link source target w h)) \<subseteq> insert source (fst ` set (edges_s h))"
  by (auto simp: Graph_Link_def Let_def dom_map_entry dom_update split: option.splits)

lemma ids_add_props:
  "take (length ids) (ids_add k ids) = ids" "set (ids_add k ids) = insert k (set ids)"
  "length ids \<le> length (ids_add k ids)"
  by (auto simp: ids_add_def)

lemma ids_add2_take: "take (length ids) (ids_add t (ids_add s ids)) = ids"
proof -
  have "take (length ids) (ids_add t (ids_add s ids))
      = take (length ids) (take (length (ids_add s ids)) (ids_add t (ids_add s ids)))"
    using ids_add_props(3)[of ids s] by (simp add: min_def)
  then show ?thesis by (simp add: ids_add_props(1))
qed

lemma lookup_or_append_keys:
  "lookup_or_append k g = (i, g') \<Longrightarrow> map fst (index g') = ids_add k (map fst (index g))"
  by (auto simp: lookup_or_append_def update_new_keys ids_add_old
           dest: map_of_Some_key split: option.splits)

lemma Link_index_keys:
  assumes "graph_inv g" "Link source target w g = Inr g'"
  shows "map fst (index g') = ids_add target (ids_add source (map fst (index g)))"
proof (rule Link_unfold[OF assms(1), of source target w])
  fix s g1 t g3
  assume 1: "lookup_or_append source g = (s, g1)"
    and 2: "lookup_or_append target
              (g1\<lparr>nodes := (nodes g1)[s := (nodes g1 ! s)\<lparr>outbound := outbound (nodes g1 ! s) + w\<rparr>]\<rparr>)
              = (t, g3)"
    and 3: "Link source target w g =
              Inr (g3\<lparr>nodes := (nodes g3)[s := (nodes g3 ! s)\<lparr>edges :=
                   AList.update t (edge_weight (edges (nodes g3 ! s)) t + w) (edges (nodes g3 ! s))\<rparr>]\<rparr>)"
  from 3 assms(2) have "index g' = index g3" by auto
  moreover from lookup_or_append_keys[OF 2] lookup_or_append_keys[OF 1]
  have "map fst (index g3) = ids_add target (ids_add source (map fst (index g)))" by simp
  ultimately show ?thesis by simp
qed

lemma index_position:
  assumes "graph_inv g" "map_of (index g) k = Some i"
  shows "i < length (nodes g)" "map fst (index g) ! i = k"
proof -
  note len = graph_inv_index(1)[OF assms(1)]
  from assms(2) have "(k, i) \<in> set (index g)" by (rule map_of_SomeD)
  then obtain j where j: "j < length (index g)" "index g ! j = (k, i)"
    by (auto simp: in_set_conv_nth)
  from graph_inv_index_nth[OF assms(1), of j] j len have ji: "j = i" by simp
  show "i < length (nodes g)" using j(1) ji len by simp
  show "map fst (index g) ! i = k" using j ji by simp
qed

lemma index_absent:
  assumes "map_of (index g) k = None"
  shows "k \<notin> set (map fst (index g))"
  using assms by (simp add: map_of_eq_None_iff)

lemma corr_New: "corr NewGraph64 New"
  by (simp add: corr_def NewGraph64_def New_def)

lemma corr_Link:
  assumes inv: "graph_inv g" and c: "corr g h" and L: "Link source target w g = Inr g'"
  shows "corr g' (Graph_Link source target w h)"
proof -
  let ?ids = "map fst (index g)" and ?ids' = "map fst (index g')"
  let ?h' = "Graph_Link source target w h"
  let ?N = "length (nodes g)" and ?N' = "length (nodes g')"
  let ?n0g = "case map_of (index g) source of None \<Rightarrow> Node64_zero | Some i \<Rightarrow> nodes g ! i"
  let ?n0h = "case map_of (nodes_s h) source of None \<Rightarrow> node_zero | Some n \<Rightarrow> n"
  from Link_props[OF inv, of source target w] L
  obtain s t where inv': "graph_inv g'"
    and src: "map_of (index g') source = Some s" and tgt: "map_of (index g') target = Some t"
    and cnt: "count g \<le> count g'"
    and ns: "nodes g' ! s = link_node t w ?n0g"
    and other: "\<forall>j < count g'. j \<noteq> s \<longrightarrow> nodes g' ! j = (if j < count g then nodes g ! j else Node64_zero)"
    by auto
  have hk: "map fst (nodes_s h) = ?ids"
    and hob: "\<forall>i < ?N. outbound_s (snd (nodes_s h ! i)) = outbound (nodes g ! i)"
    and hed: "\<forall>i < ?N. edges_of (edges_s h) (?ids ! i) = relabel ?ids (edges (nodes g ! i))"
    and hsub: "fst ` set (edges_s h) \<subseteq> fst ` set (index g)"
    using c by (simp_all add: corr_def)
  have cN: "count g = ?N" and cN': "count g' = ?N'"
    using inv inv' by (simp_all add: graph_inv_def)
  have lids: "length ?ids = ?N" and dids: "distinct ?ids"
    using graph_inv_index[OF inv] by simp_all
  have lids': "length ?ids' = ?N'" and dids': "distinct ?ids'"
    using graph_inv_index[OF inv'] by simp_all
  have keys': "?ids' = ids_add target (ids_add source ?ids)"
    by (rule Link_index_keys[OF inv L])
  have pre: "take ?N ?ids' = ?ids"
    unfolding keys' using ids_add2_take[of ?ids target source] lids by simp
  have pre_nth: "?ids' ! j = ?ids ! j" if "j < ?N" for j
    using that pre by (metis nth_take)
  have set': "set ?ids' = insert target (insert source (set ?ids))"
    unfolding keys' by (simp add: ids_add_props(2))
  have NN: "?N \<le> ?N'" using cnt cN cN' by simp
  note ps = index_position[OF inv' src] and pt = index_position[OF inv' tgt]
  have hk': "map fst (nodes_s ?h') = ?ids'"
    unfolding Graph_Link_keys hk keys' ..
  have lh: "length (nodes_s h) = ?N" using hk lids by (metis length_map)
  have lh': "length (nodes_s ?h') = ?N'" using hk' lids' by (metis length_map)
  have dh: "distinct (map fst (nodes_s h))" using hk dids by simp
  have dh': "distinct (map fst (nodes_s ?h'))" using hk' dids' by simp
  have hnode: "map_of (nodes_s h) (?ids ! i) = Some (snd (nodes_s h ! i))" if "i < ?N" for i
  proof -
    have "fst (nodes_s h ! i) = ?ids ! i" using hk that lh by (metis nth_map)
    with map_of_nth[OF dh, of i] that lh show ?thesis by simp
  qed
  have hnode': "map_of (nodes_s ?h') (?ids' ! i) = Some (snd (nodes_s ?h' ! i))" if "i < ?N'" for i
  proof -
    have "fst (nodes_s ?h' ! i) = ?ids' ! i" using hk' that lh' by (metis nth_map)
    with map_of_nth[OF dh', of i] that lh' show ?thesis by simp
  qed
  have habsent: "map_of (nodes_s h) k = None" if "k \<notin> set ?ids" for k
    using that hk by (metis map_of_eq_None_iff set_map)
  have eabsent: "edges_of (edges_s h) k = []" if "k \<notin> set ?ids" for k
  proof -
    have "k \<notin> fst ` set (edges_s h)" using that hsub by auto
    then have "map_of (edges_s h) k = None" by (simp add: map_of_eq_None_iff)
    then show ?thesis by (simp add: edges_of_def)
  qed
  have tg: "\<forall>e \<in> set (edges (nodes g ! i)). fst e < ?N" if "i < ?N" for i
    using graph_inv_nth[OF inv, of i] that cN by (simp add: node_ok_def)
  \<comment> \<open>the source node before the call, in both variants\<close>
  have n0: "outbound_s ?n0h = outbound ?n0g \<and>
            edges_of (edges_s h) source = relabel ?ids' (edges ?n0g) \<and>
            (\<forall>e \<in> set (edges ?n0g). fst e < ?N)"
  proof (cases "map_of (index g) source")
    case None
    then have "source \<notin> set ?ids" by (rule index_absent)
    with None habsent eabsent show ?thesis
      by (simp add: Node64_zero_def node_zero_def relabel_def)
  next
    case (Some i0)
    note p0 = index_position[OF inv Some]
    have "edges_of (edges_s h) source = relabel ?ids (edges (nodes g ! i0))"
      using hed p0 by auto
    also have "\<dots> = relabel ?ids' (edges (nodes g ! i0))"
      by (rule relabel_prefix[OF tg[OF p0(1)] pre, symmetric])
    finally show ?thesis using Some hnode[OF p0(1)] hob p0 tg[OF p0(1)] by simp
  qed
  have nodes': "outbound_s (snd (nodes_s ?h' ! i)) = outbound (nodes g' ! i) \<and>
                edges_of (edges_s ?h') (?ids' ! i) = relabel ?ids' (edges (nodes g' ! i))"
    if i: "i < ?N'" for i
  proof (cases "i = s")
    case True
    have k: "?ids' ! i = source" using True ps(2) by simp
    from hnode'[OF i] have "snd (nodes_s ?h' ! i) = ?n0h\<lparr>outbound_s := outbound_s ?n0h + w\<rparr>"
      unfolding k Graph_Link_nodes by simp
    then have 1: "outbound_s (snd (nodes_s ?h' ! i)) = outbound (nodes g' ! i)"
      using n0 ns True by (simp add: link_node_def)
    have tN': "\<forall>e \<in> set (edges ?n0g). fst e < length ?ids'" using n0 NN lids' by auto
    have "edges_of (edges_s ?h') (?ids' ! i)
        = AList.update target (edge_weight (relabel ?ids' (edges ?n0g)) target + w)
            (relabel ?ids' (edges ?n0g))"
      unfolding k Graph_Link_edges using n0 by simp
    also have "edge_weight (relabel ?ids' (edges ?n0g)) target = edge_weight (edges ?n0g) t"
      using edge_weight_relabel[OF dids' _ tN', of t] pt lids' by simp
    also have "AList.update target (edge_weight (edges ?n0g) t + w) (relabel ?ids' (edges ?n0g))
        = relabel ?ids' (AList.update t (edge_weight (edges ?n0g) t + w) (edges ?n0g))"
      using relabel_update[OF dids' _ tN', of t] pt lids' by simp
    finally have 2: "edges_of (edges_s ?h') (?ids' ! i) = relabel ?ids' (edges (nodes g' ! i))"
      using ns True by (simp add: link_node_def)
    from 1 2 show ?thesis ..
  next
    case False
    have ksrc: "?ids' ! i \<noteq> source"
      using False i ps lids' nth_eq_iff_index_eq[OF dids', of i s] by simp
    show ?thesis
    proof (cases "i < ?N")
      case True
      have k: "?ids' ! i = ?ids ! i" by (rule pre_nth[OF True])
      have g'i: "nodes g' ! i = nodes g ! i" using other i False True cN cN' by simp
      have "map_of (nodes_s ?h') (?ids' ! i) = Some (snd (nodes_s h ! i))"
        unfolding Graph_Link_nodes using ksrc hnode[OF True] k by auto
      with hnode'[OF i] have "snd (nodes_s ?h' ! i) = snd (nodes_s h ! i)" by simp
      then have 1: "outbound_s (snd (nodes_s ?h' ! i)) = outbound (nodes g' ! i)"
        using hob True g'i by simp
      have "edges_of (edges_s ?h') (?ids' ! i) = edges_of (edges_s h) (?ids ! i)"
        unfolding Graph_Link_edges using ksrc k by simp
      also have "\<dots> = relabel ?ids (edges (nodes g ! i))" using hed True by simp
      also have "\<dots> = relabel ?ids' (edges (nodes g ! i))"
        by (rule relabel_prefix[OF tg[OF True] pre, symmetric])
      finally have 2: "edges_of (edges_s ?h') (?ids' ! i) = relabel ?ids' (edges (nodes g' ! i))"
        using g'i by simp
      from 1 2 show ?thesis ..
    next
      case False
      have g'i: "nodes g' ! i = Node64_zero" using other i \<open>i \<noteq> s\<close> False cN cN' by simp
      have new: "?ids' ! i \<notin> set ?ids"
      proof
        assume "?ids' ! i \<in> set ?ids"
        then obtain j where j: "j < ?N" "?ids ! j = ?ids' ! i"
          using lids by (metis in_set_conv_nth)
        then have "?ids' ! j = ?ids' ! i" using pre_nth by simp
        moreover have "j < length ?ids'" "i < length ?ids'" using j(1) i NN lids' by simp_all
        ultimately have "j = i" using nth_eq_iff_index_eq[OF dids', of j i] by simp
        with j(1) False show False by simp
      qed
      have "?ids' ! i \<in> set ?ids'" using i lids' by (metis nth_mem)
      with new ksrc have kt: "?ids' ! i = target" unfolding set' by auto
      have "map_of (nodes_s ?h') (?ids' ! i) = Some node_zero"
        unfolding Graph_Link_nodes using ksrc kt habsent[OF new] by simp
      with hnode'[OF i] have "snd (nodes_s ?h' ! i) = node_zero" by simp
      then have 1: "outbound_s (snd (nodes_s ?h' ! i)) = outbound (nodes g' ! i)"
        using g'i by (simp add: node_zero_def Node64_zero_def)
      have "edges_of (edges_s ?h') (?ids' ! i) = []"
        unfolding Graph_Link_edges using ksrc eabsent[OF new] by simp
      then have 2: "edges_of (edges_s ?h') (?ids' ! i) = relabel ?ids' (edges (nodes g' ! i))"
        using g'i by (simp add: Node64_zero_def relabel_def)
      from 1 2 show ?thesis ..
    qed
  qed
  have sub': "fst ` set (edges_s ?h') \<subseteq> fst ` set (index g')"
  proof -
    have "fst ` set (edges_s ?h') \<subseteq> insert source (fst ` set (edges_s h))"
      by (rule Graph_Link_edge_keys)
    also have "\<dots> \<subseteq> insert source (set ?ids)" using hsub by auto
    also have "\<dots> \<subseteq> set ?ids'" unfolding set' by auto
    finally show ?thesis by simp
  qed
  show ?thesis unfolding corr_def using hk' nodes' sub' by simp
qed

lemma corr_Links:
  assumes "graph_inv g" "corr g h" "Links ls g = Inr g'"
  shows "corr g' (Graph_Links ls h)"
  using assms
proof (induction ls arbitrary: g h)
  case Nil
  then show ?case by simp
next
  case (Cons l ls)
  obtain s t w where l: "l = (s, t, w)" by (cases l)
  from Link_ok[OF Cons.prems(1), of s t w] obtain g1 where
    1: "Link s t w g = Inr g1" and 2: "graph_inv g1" by (elim exE conjE)
  have 3: "corr g1 (Graph_Link s t w h)" by (rule corr_Link[OF Cons.prems(1,2) 1])
  from Cons.prems(3) 1 have "Links ls g1 = Inr g'" by (simp add: l)
  from Cons.IH[OF 2 3 this] show ?case by (simp add: l)
qed

subsection \<open>The first call of Rank on a graph built by Link calls\<close>

text \<open>
  The lemmas of this subsection are about a graph as \<open>Link\<close> calls on a new graph leave it:
  both weight slots of every node are 0 and the outbound total of a node is the sum of its
  edge weights. \<open>Rank\<close> does not leave the graph in that state (see the claims below on a
  second call), so they say nothing about a later call.

  The update pass. Take the state \<open>st\<close> that the loop of \<open>Rank\<close> has reached after \<open>k\<close>
  turns. The update pass of the next turn returns without a panic, and afterwards slot \<open>b\<close>
  (next) of every node \<open>t\<close> holds \<open>\<alpha>\<close> times the sum, over the nodes \<open>s\<close> with an edge to
  \<open>t\<close>, of the current rank of \<open>s\<close> times the weight of that edge, plus
  \<open>(1 - \<alpha>) / N + \<alpha> * leak / N\<close>, where \<open>leak\<close>, the value the loop variable has, is the
  current rank of the nodes whose outbound total is 0. The current rank is \<open>1 / N\<close> before the
  first turn (\<open>k = 0\<close>), and the next slot of this pass is the current rank of the following
  turn.
\<close>

lemma first_Rank_update_pass:
  assumes "Links ls NewGraph64 = Inr g" and "N = length (nodes g)"
    and "iterations k \<alpha> (1 / real N) (initialize (1 / real N) (map normalize (nodes g))) = Inr st"
  shows "\<exists>ns'.
     update_pass \<alpha> (st_a st) (st_b st) (adjustment_of \<alpha> (1 / real N) (st_leak st))
        [0..<length (st_nodes st)] (st_nodes st) = Inr ns' \<and>
     (\<forall>t < N. wget (st_b st) (ns' ! t) =
        \<alpha> * (\<Sum>s | s < N \<and> t \<in> fst ` set (edges (st_nodes st ! s)).
                wget (st_a st) (st_nodes st ! s) * edge_weight (edges (st_nodes st ! s)) t)
        + (1 - \<alpha>) / real N
        + \<alpha> * (\<Sum>s | s < N \<and> outbound (st_nodes st ! s) = 0. wget (st_a st) (st_nodes st ! s))
            / real N) \<and>
     st_leak st = (\<Sum>s | s < N \<and> outbound (st_nodes st ! s) = 0. wget (st_a st) (st_nodes st ! s)) \<and>
     (k = 0 \<longrightarrow> (\<forall>s < N. wget (st_a st) (st_nodes st ! s) = 1 / real N)) \<and>
     (\<forall>st'. iteration \<alpha> (1 / real N) st = Inr st' \<longrightarrow>
        (\<forall>t < N. wget (st_a st') (st_nodes st' ! t) = wget (st_b st) (ns' ! t)))"
proof -
  let ?nz = "map normalize (nodes g)" and ?a = "st_a st" and ?b = "st_b st" and ?ns = "st_nodes st"
  let ?adj = "adjustment_of \<alpha> (1 / real N) (st_leak st)"
  note ginv = built(1)[OF assms(1)]
  note inv = built_iterations[OF assms(1,3)] and ok = built_initial(2)[OF assms(1)]
  have N: "length ?nz = N" using assms(2) by simp
  have len: "length ?ns = N" and ab: "?a \<noteq> ?b" "?a < 2" "?b < 2"
    and ed: "\<forall>i < N. edges (?ns ! i) = edges (?nz ! i)"
    and ob: "\<forall>i < N. outbound (?ns ! i) = outbound (?nz ! i)"
    and zb: "\<forall>i < N. wget ?b (?ns ! i) = 0"
    and lk: "st_leak st = (\<Sum>i < N. if outbound (?nz ! i) = 0 then cur st i else 0)"
    using inv by (simp_all add: rank_inv_def assms(2))
  from update_pass_state[OF inv ok, of \<alpha> ?adj] obtain ns' where
    1: "update_pass \<alpha> ?a ?b ?adj [0..<length ?ns] ?ns = Inr ns'"
    and 2: "length ns' = N"
    and 3: "\<forall>j < N. ns' ! j =
              wadd ?b (\<alpha> * (\<Sum>i < N. cur st i * inflow (edges (?nz ! i)) j) + ?adj) (?ns ! j)"
    unfolding N by (elim exE conjE)
  have leak: "st_leak st = (\<Sum>s | s < N \<and> outbound (?ns ! s) = 0. wget ?a (?ns ! s))"
  proof -
    have "(\<Sum>i < N. if outbound (?nz ! i) = 0 then cur st i else 0)
        = (\<Sum>i < N. if outbound (?ns ! i) = 0 then wget ?a (?ns ! i) else 0)"
      by (rule sum.cong) (simp_all add: ob cur_def)
    with lk show ?thesis by (simp add: sum_filter_lt)
  qed
  have flow: "(\<Sum>i < N. cur st i * inflow (edges (?nz ! i)) t)
      = (\<Sum>s | s < N \<and> t \<in> fst ` set (edges (?ns ! s)). wget ?a (?ns ! s) * edge_weight (edges (?ns ! s)) t)"
    for t
  proof -
    have "(\<Sum>i < N. cur st i * inflow (edges (?nz ! i)) t)
        = (\<Sum>s < N. if t \<in> fst ` set (edges (?ns ! s))
                     then wget ?a (?ns ! s) * edge_weight (edges (?ns ! s)) t else 0)"
    proof (rule sum.cong)
      fix s assume "s \<in> {..<N}"
      then have s: "s < N" by simp
      then have "distinct (map fst (edges (?nz ! s)))"
        using normalized_distinct[OF ginv] assms(2) by simp
      from inflow_sum_edges[OF this, of "cur st s" t] s ed
      show "cur st s * inflow (edges (?nz ! s)) t =
        (if t \<in> fst ` set (edges (?ns ! s))
         then wget ?a (?ns ! s) * edge_weight (edges (?ns ! s)) t else 0)"
        by (simp add: cur_def)
    qed simp
    then show ?thesis by (simp add: sum_filter_lt)
  qed
  have adj: "?adj = (1 - \<alpha>) / real N + \<alpha> * st_leak st / real N"
    by (simp add: adjustment_of_def)
  have nxt: "\<forall>t < N. wget ?b (ns' ! t) =
        \<alpha> * (\<Sum>s | s < N \<and> t \<in> fst ` set (edges (?ns ! s)).
                wget ?a (?ns ! s) * edge_weight (edges (?ns ! s)) t)
        + (1 - \<alpha>) / real N
        + \<alpha> * (\<Sum>s | s < N \<and> outbound (?ns ! s) = 0. wget ?a (?ns ! s)) / real N"
  proof (intro allI impI)
    fix t assume t: "t < N"
    with 3 zb have "wget ?b (ns' ! t) = \<alpha> * (\<Sum>i < N. cur st i * inflow (edges (?nz ! i)) t) + ?adj"
      by simp
    then show "wget ?b (ns' ! t) =
        \<alpha> * (\<Sum>s | s < N \<and> t \<in> fst ` set (edges (?ns ! s)).
                wget ?a (?ns ! s) * edge_weight (edges (?ns ! s)) t)
        + (1 - \<alpha>) / real N
        + \<alpha> * (\<Sum>s | s < N \<and> outbound (?ns ! s) = 0. wget ?a (?ns ! s)) / real N"
      unfolding flow adj leak[symmetric] by simp
  qed
  have first: "k = 0 \<longrightarrow> (\<forall>s < N. wget ?a (?ns ! s) = 1 / real N)"
  proof
    assume "k = 0"
    with assms(3) have "st = initialize (1 / real N) ?nz" by simp
    then show "\<forall>s < N. wget ?a (?ns ! s) = 1 / real N"
      using N by (simp add: initialize_def)
  qed
  have swap: "\<forall>st'. iteration \<alpha> (1 / real N) st = Inr st' \<longrightarrow>
        (\<forall>t < N. wget (st_a st') (st_nodes st' ! t) = wget ?b (ns' ! t))"
    using 1 2 ab by (auto simp: iteration_def Let_def)
  show ?thesis by (intro exI[of _ ns'] conjI) (fact 1 nxt leak first swap)+
qed

lemma first_Rank_update_pass_example:
  "Links [(1, 2, 1), (2, 3, 1)] NewGraph64 = Inr chain_graph \<and>
   3 = length (nodes chain_graph) \<and>
   iterations (Suc 0) (1 / 2) (1 / real 3)
      (initialize (1 / real 3) (map normalize (nodes chain_graph))) = Inr chain_state \<and>
   (\<exists>ns'. update_pass (1 / 2) (st_a chain_state) (st_b chain_state)
            (adjustment_of (1 / 2) (1 / real 3) (st_leak chain_state))
            [0..<length (st_nodes chain_state)] (st_nodes chain_state) = Inr ns')"
proof -
  from first_Rank_update_pass[OF chain_links chain_length chain_first_turn]
  obtain ns' where "update_pass (1 / 2) (st_a chain_state) (st_b chain_state)
            (adjustment_of (1 / 2) (1 / real 3) (st_leak chain_state))
            [0..<length (st_nodes chain_state)] (st_nodes chain_state) = Inr ns'"
    by (elim exE conjE)
  then have "\<exists>ns'. update_pass (1 / 2) (st_a chain_state) (st_b chain_state)
            (adjustment_of (1 / 2) (1 / real 3) (st_leak chain_state))
            [0..<length (st_nodes chain_state)] (st_nodes chain_state) = Inr ns'" ..
  with chain_links chain_length chain_first_turn show ?thesis by (intro conjI)
qed

text \<open>
  The rank mass, with non-negative weights and \<open>N \<ge> 1\<close> nodes. After the initialization of
  \<open>Rank\<close> the current ranks sum to 1. One turn of the loop takes every loop state over this
  graph (so with \<open>leak\<close> the current rank of the nodes whose outbound total is 0) whose
  current ranks sum to 1 to such a state again. And whenever \<open>Rank\<close> returns, the ranks it
  has passed to the callback sum to 1.
\<close>

lemma first_Rank_mass_conserved:
  assumes "Links ls NewGraph64 = Inr g" "\<forall>l \<in> set ls. 0 \<le> snd (snd l)"
    and "N = length (nodes g)" "1 \<le> N"
  shows "(\<Sum>i < N. cur (initialize (1 / real N) (map normalize (nodes g))) i) = 1 \<and>
         (\<forall>st st'. rank_inv (map normalize (nodes g)) st \<and> (\<Sum>i < N. cur st i) = 1 \<and>
                   iteration \<alpha> (1 / real N) st = Inr st' \<longrightarrow>
                   rank_inv (map normalize (nodes g)) st' \<and> (\<Sum>i < N. cur st' i) = 1) \<and>
         (\<forall>fuel \<epsilon> g' calls. Rank fuel \<alpha> \<epsilon> g = Some (Inr (g', calls)) \<longrightarrow>
                   sum_list (map snd calls) = 1)"
proof -
  let ?nz = "map normalize (nodes g)"
  have N1: "1 \<le> length (nodes g)" using assms(3,4) by simp
  have a: "(\<Sum>i < N. cur (initialize (1 / real N) ?nz) i) = 1"
    using initialize_sum[of ?nz] N1 assms(3) by simp
  have b: "\<forall>st st'. rank_inv ?nz st \<and> (\<Sum>i < N. cur st i) = 1 \<and>
                   iteration \<alpha> (1 / real N) st = Inr st' \<longrightarrow>
                   rank_inv ?nz st' \<and> (\<Sum>i < N. cur st' i) = 1"
    unfolding assms(3) using iteration_sum[OF assms(1,2) N1] by blast
  have c: "\<forall>fuel \<epsilon> g' calls. Rank fuel \<alpha> \<epsilon> g = Some (Inr (g', calls)) \<longrightarrow>
                   sum_list (map snd calls) = 1"
  proof (intro allI impI)
    fix fuel \<epsilon> g' calls
    assume R: "Rank fuel \<alpha> \<epsilon> g = Some (Inr (g', calls))"
    let ?q = "1 / real (length (nodes g))"
    from Rank_from_spec[OF built[OF assms(1)], of ?q fuel \<alpha> \<epsilon>] R
    obtain st k where it: "iterations k \<alpha> ?q (initialize ?q ?nz) = Inr st"
      and r: "Rank_from ?q fuel \<alpha> \<epsilon> g =
              Some (Inr (g\<lparr>nodes := st_nodes st\<rparr>, map (\<lambda>e. (fst e, cur st (snd e))) (index g)))"
      unfolding Rank_def by auto
    from r R have calls: "calls = map (\<lambda>e. (fst e, cur st (snd e))) (index g)"
      unfolding Rank_def by simp
    have "(\<Sum>i < length (nodes g). cur st i) = 1"
      using iterations_sum[OF assms(1,2) N1 built_initial(1)[OF assms(1)] _ it]
        initialize_sum[of ?nz] N1 by simp
    then show "sum_list (map snd calls) = 1"
      unfolding calls calls_sum[OF built(1)[OF assms(1)]] .
  qed
  from a b c show ?thesis by (intro conjI)
qed

lemma first_Rank_mass_conserved_example:
  "Links [(1, 2, 1), (2, 3, 1)] NewGraph64 = Inr chain_graph \<and>
   3 = length (nodes chain_graph) \<and> (1::nat) \<le> 3 \<and>
   Rank 5 (1 / 2) (1 / 10) chain_graph = Some (Inr
     (chain_graph\<lparr>nodes := [\<lparr>weight = (25 / 108, 0), outbound = 1, edges = [(1, 1)]\<rparr>,
              \<lparr>weight = (37 / 108, 0), outbound = 1, edges = [(2, 1)]\<rparr>,
              \<lparr>weight = (23 / 54, 0), outbound = 0, edges = []\<rparr>]\<rparr>,
      [(1, 25 / 108), (2, 37 / 108), (3, 23 / 54)])) \<and>
   sum_list (map snd [(1::64 word, 25 / 108 :: real), (2, 37 / 108), (3, 23 / 54)]) = 1"
proof -
  have one: "(1::nat) \<le> 3" by simp
  from first_Rank_mass_conserved[OF chain_links chain_nonneg chain_length one, of "1 / 2"]
  have "\<forall>fuel \<epsilon> g' calls. Rank fuel (1 / 2) \<epsilon> chain_graph = Some (Inr (g', calls)) \<longrightarrow>
                   sum_list (map snd calls) = 1" by (elim conjE)
  with chain_run
  have "sum_list (map snd [(1::64 word, 25 / 108 :: real), (2, 37 / 108), (3, 23 / 54)]) = 1"
    by blast
  with chain_links chain_length one chain_run show ?thesis by (intro conjI)
qed

text \<open>
  The normalization pass turns the edge map of every node whose outbound total is positive
  into the same map with every weight divided by that total, so that the weights then sum
  to 1; it leaves the edge map of a node whose outbound total is 0 as it was; and the rest of
  \<open>Rank\<close> does not touch the edge maps again.
\<close>

lemma first_Rank_normalize:
  assumes "Links ls NewGraph64 = Inr g" "i < length (nodes g)"
  shows "(outbound (nodes g ! i) > 0 \<longrightarrow>
            edges (map normalize (nodes g) ! i) =
              map (\<lambda>(target, w). (target, w / outbound (nodes g ! i))) (edges (nodes g ! i)) \<and>
            sum_list (map snd (edges (map normalize (nodes g) ! i))) = 1) \<and>
         (outbound (nodes g ! i) = 0 \<longrightarrow>
            edges (map normalize (nodes g) ! i) = edges (nodes g ! i)) \<and>
         (\<forall>fuel \<alpha> \<epsilon> g' calls. Rank fuel \<alpha> \<epsilon> g = Some (Inr (g', calls)) \<longrightarrow>
            edges (nodes g' ! i) = edges (map normalize (nodes g) ! i))"
proof -
  note inv = built(1)[OF assms(1)] and fr = built(2)[OF assms(1)]
  have ob: "outbound (nodes g ! i) = sum_list (map snd (edges (nodes g ! i)))"
    using fr assms(2) by (simp add: fresh_def)
  have a: "outbound (nodes g ! i) > 0 \<longrightarrow>
            edges (map normalize (nodes g) ! i) =
              map (\<lambda>(target, w). (target, w / outbound (nodes g ! i))) (edges (nodes g ! i)) \<and>
            sum_list (map snd (edges (map normalize (nodes g) ! i))) = 1"
    using assms(2) normalize_sum[OF ob] by (simp add: normalize_def)
  have b: "outbound (nodes g ! i) = 0 \<longrightarrow>
            edges (map normalize (nodes g) ! i) = edges (nodes g ! i)"
    using assms(2) by (simp add: normalize_def)
  have c: "\<forall>fuel \<alpha> \<epsilon> g' calls. Rank fuel \<alpha> \<epsilon> g = Some (Inr (g', calls)) \<longrightarrow>
            edges (nodes g' ! i) = edges (map normalize (nodes g) ! i)"
    unfolding Rank_def using Rank_keeps_edges(1)[OF inv fr _ assms(2)] assms(2) by simp
  from a b c show ?thesis by (intro conjI)
qed

lemma first_Rank_normalize_example:
  "Links [(1, 2, 2)] NewGraph64 =
     Inr \<lparr>Verbose = False, count = 2, index = [(1, 0), (2, 1)],
          nodes = [\<lparr>weight = (0, 0), outbound = 2, edges = [(1, 2)]\<rparr>,
                   \<lparr>weight = (0, 0), outbound = 0, edges = []\<rparr>]\<rparr> \<and>
   edges (map normalize [\<lparr>weight = (0, 0), outbound = 2, edges = [(1, 2)]\<rparr>,
                         \<lparr>weight = (0, 0), outbound = 0, edges = []\<rparr>] ! 0) = [(1, 1)] \<and>
   sum_list (map snd (edges (map normalize [\<lparr>weight = (0, 0), outbound = 2, edges = [(1, 2)]\<rparr>,
                         \<lparr>weight = (0, 0), outbound = 0, edges = []\<rparr>] ! 0))) = 1"
proof -
  let ?g = "\<lparr>Verbose = False, count = 2, index = [(1, 0), (2, 1)],
          nodes = [\<lparr>weight = (0, 0), outbound = 2, edges = [(1, 2)]\<rparr>,
                   \<lparr>weight = (0, 0), outbound = 0, edges = []\<rparr>]\<rparr>"
  have h: "Links [(1, 2, 2)] NewGraph64 = Inr ?g"
    by (simp add: Link_def lookup_or_append_def NewGraph64_def Node64_zero_def edge_weight_def)
  have i: "0 < length (nodes ?g)" by simp
  have p: "outbound (nodes ?g ! 0) > 0" by simp
  from first_Rank_normalize[OF h i, THEN conjunct1, rule_format, OF p]
  have "edges (map normalize (nodes ?g) ! 0) = [(1, 1)] \<and>
        sum_list (map snd (edges (map normalize (nodes ?g) ! 0))) = 1" by simp
  with h show ?thesis by simp
qed

section \<open>The claims\<close>

text \<open>
  Claim C1, on the code: \<open>Rank\<close> called twice on the graph of \<open>Link(1, 2, 2)\<close>,
  \<open>Link(2, 1, 2)\<close> with \<open>\<alpha> = 1/2\<close> and \<open>\<epsilon> = 1/10\<close>. The first call returns after one turn and
  leaves the ranks, \<open>1/2\<close> and \<open>1/2\<close>, in weight slot 1. The second call sets \<open>a, b = 0, 1\<close>
  and writes \<open>1 / N = 1/2\<close> into slot 0 of every node; it does not clear slot 1 (lines 110-119
  write \<open>weight[a]\<close> only), and it has divided the edge weights by the outbound totals once
  more (\<open>1/2\<close> each). Its first update pass adds to what slot 1 holds: the next slot of both
  nodes becomes \<open>1/2 + 1/2 * (1/2 * 1/2) + 1/4 = 7/8\<close>. The formula of the claim,
  \<open>\<alpha> * (current(s) * edges(s)[t]) + (1 - \<alpha>) / N + \<alpha> * leak / N\<close> with the one node \<open>s\<close> that
  has an edge to \<open>t\<close>, gives \<open>3/8\<close> for both nodes.
\<close>

theorem second_Rank_update_pass:
  "Links [(1, 2, 2), (2, 1, 2)] NewGraph64 = Inr cycle_graph \<and>
   Rank 1 (1 / 2) (1 / 10) cycle_graph =
     Some (Inr (cycle_graph_ranked, [(1, 1 / 2), (2, 1 / 2)])) \<and>
   initialize (1 / real (length (nodes cycle_graph_ranked)))
     (map normalize (nodes cycle_graph_ranked)) = cycle_second_start \<and>
   update_pass (1 / 2) (st_a cycle_second_start) (st_b cycle_second_start)
     (adjustment_of (1 / 2) (1 / real (length (nodes cycle_graph_ranked)))
        (st_leak cycle_second_start))
     [0..<length (st_nodes cycle_second_start)] (st_nodes cycle_second_start) =
       Inr [\<lparr>weight = (1 / 2, 7 / 8), outbound = 2, edges = [(1, 1 / 2)]\<rparr>,
            \<lparr>weight = (1 / 2, 7 / 8), outbound = 2, edges = [(0, 1 / 2)]\<rparr>] \<and>
   1 / 2 * (wget (st_a cycle_second_start) (st_nodes cycle_second_start ! 1) *
              edge_weight (edges (st_nodes cycle_second_start ! 1)) 0)
     + (1 - 1 / 2) / 2 + 1 / 2 * st_leak cycle_second_start / 2 = 3 / 8 \<and>
   1 / 2 * (wget (st_a cycle_second_start) (st_nodes cycle_second_start ! 0) *
              edge_weight (edges (st_nodes cycle_second_start ! 0)) 1)
     + (1 - 1 / 2) / 2 + 1 / 2 * st_leak cycle_second_start / 2 = 3 / 8 \<and>
   (7 / 8 :: real) \<noteq> 3 / 8"
proof -
  have l: "1 / real (length (nodes cycle_graph_ranked)) = 1 / 2"
    by (simp add: cycle_graph_ranked_def)
  have s: "st_a cycle_second_start = 0" "st_b cycle_second_start = 1"
    "st_leak cycle_second_start = 0" "length (st_nodes cycle_second_start) = 2"
    by (simp_all add: cycle_second_start_def)
  have f: "1 / 2 * (wget 0 (st_nodes cycle_second_start ! 1) *
              edge_weight (edges (st_nodes cycle_second_start ! 1)) 0)
     + (1 - 1 / 2) / 2 + 1 / 2 * 0 / 2 = 3 / 8"
    "1 / 2 * (wget 0 (st_nodes cycle_second_start ! 0) *
              edge_weight (edges (st_nodes cycle_second_start ! 0)) 1)
     + (1 - 1 / 2) / 2 + 1 / 2 * 0 / 2 = 3 / 8"
    by (simp_all add: cycle_second_start_def wget_def edge_weight_def)
  have n: "(7 / 8 :: real) \<noteq> 3 / 8" by simp
  show ?thesis unfolding l s
    using cycle_links cycle_first_run cycle_second_initialize cycle_second_pass f n
    by (intro conjI)
qed

text \<open>
  Claim C2, on the code: the same two calls of \<open>Rank\<close>, on the graph of \<open>Link(1, 2, 2)\<close>,
  \<open>Link(2, 1, 2)\<close> (non-negative weights, \<open>N = 2\<close>) with \<open>\<alpha> = 1/2\<close> and \<open>\<epsilon> = 1/10\<close>. The
  second call starts from current ranks \<open>1/2 + 1/2 = 1\<close> and \<open>leak = 0\<close> (no node has
  outbound total 0). Its first turn leaves the ranks \<open>7/8\<close> and \<open>7/8\<close>, which sum to \<open>7/4\<close>:
  the pass has added to the ranks of the first call, which slot 1 still held. The call
  returns after four turns and passes \<open>175/512\<close> to the callback for both nodes: the final
  ranks sum to \<open>175/256\<close>, not to 1.
\<close>

theorem second_Rank_mass:
  "Links [(1, 2, 2), (2, 1, 2)] NewGraph64 = Inr cycle_graph \<and>
   Rank 1 (1 / 2) (1 / 10) cycle_graph =
     Some (Inr (cycle_graph_ranked, [(1, 1 / 2), (2, 1 / 2)])) \<and>
   initialize (1 / real (length (nodes cycle_graph_ranked)))
     (map normalize (nodes cycle_graph_ranked)) = cycle_second_start \<and>
   cur cycle_second_start 0 + cur cycle_second_start 1 = 1 \<and>
   st_leak cycle_second_start = 0 \<and>
   iteration (1 / 2) (1 / real (length (nodes cycle_graph_ranked))) cycle_second_start =
     Inr cycle_second_turn \<and>
   cur cycle_second_turn 0 + cur cycle_second_turn 1 = 7 / 4 \<and>
   Rank 4 (1 / 2) (1 / 10) cycle_graph_ranked =
     Some (Inr (cycle_graph_reranked, [(1, 175 / 512), (2, 175 / 512)])) \<and>
   sum_list (map snd [(1 :: 64 word, 175 / 512 :: real), (2, 175 / 512)]) = 175 / 256"
proof -
  have l: "1 / real (length (nodes cycle_graph_ranked)) = 1 / 2"
    by (simp add: cycle_graph_ranked_def)
  have a: "cur cycle_second_start 0 + cur cycle_second_start 1 = 1"
    and b: "st_leak cycle_second_start = 0"
    by (simp_all add: cur_def wget_def cycle_second_start_def)
  have c: "cur cycle_second_turn 0 + cur cycle_second_turn 1 = 7 / 4"
    by (simp add: cur_def wget_def cycle_second_turn_def)
  have d: "sum_list (map snd [(1 :: 64 word, 175 / 512 :: real), (2, 175 / 512)]) = 175 / 256"
    by simp
  show ?thesis unfolding l
    using cycle_links cycle_first_run cycle_second_initialize a b cycle_second_iteration c
      cycle_second_run d
    by (intro conjI)
qed

text \<open>
  Claim C3, on the code: \<open>Rank\<close> called twice on the graph of \<open>Link(1, 2, 2)\<close>,
  \<open>Link(2, 1, 2)\<close> with \<open>\<alpha> = 1/2\<close> and \<open>\<epsilon> = 1/10\<close>. The first call returns rank \<open>1/2\<close> for both
  nodes. It leaves the edge weights normalized to 1, the outbound totals at 2 and the ranks in
  weight slot 1. The second call divides the edge weights by the outbound totals again
  (\<open>1/2\<close> each) and accumulates into slot 1 without clearing it: it returns \<open>175/512\<close> for
  both nodes, which differs from \<open>1/2\<close> by more than \<open>\<epsilon>\<close>.
\<close>

theorem Rank_rerun_differs:
  "Links [(1, 2, 2), (2, 1, 2)] NewGraph64 = Inr cycle_graph \<and>
   Rank 4 (1 / 2) (1 / 10) cycle_graph =
     Some (Inr (cycle_graph_ranked, [(1, 1 / 2), (2, 1 / 2)])) \<and>
   Rank 4 (1 / 2) (1 / 10) cycle_graph_ranked =
     Some (Inr (cycle_graph_reranked, [(1, 175 / 512), (2, 175 / 512)])) \<and>
   \<bar>175 / 512 - 1 / 2 :: real\<bar> > 1 / 10"
proof -
  have "Rank 4 (1 / 2) (1 / 10) cycle_graph =
     Some (Inr (cycle_graph_ranked, [(1, 1 / 2), (2, 1 / 2)]))"
    by (rule Rank_fuel_mono[OF cycle_first_run]) simp
  moreover have "\<bar>175 / 512 - 1 / 2 :: real\<bar> > 1 / 10" by simp
  ultimately show ?thesis using cycle_links cycle_second_run by (intro conjI)
qed







text \<open>
  Claim C6. On a graph with no node (the node slice and the index are empty, as after
  \<open>NewGraph64\<close> or \<open>Reset\<close>), for every \<open>\<alpha>\<close> and every \<open>\<epsilon> > 0\<close>, \<open>Rank\<close> returns
  as soon as it may make one turn of its loop: without a panic, with no call of the callback
  and with the graph unchanged. The source does not test for the empty graph: it computes
  \<open>1 / float64(0)\<close>, which does not panic, and the result holds whatever value \<open>q\<close> that
  quotient has.
\<close>

theorem Rank_no_nodes:
  "nodes g = [] \<Longrightarrow> index g = [] \<Longrightarrow> 0 < \<epsilon> \<Longrightarrow> 0 < fuel \<Longrightarrow>
     Rank fuel \<alpha> \<epsilon> g = Some (Inr (g, [])) \<and>
     (\<forall>q. Rank_from q fuel \<alpha> \<epsilon> g = Some (Inr (g, [])))"
proof -
  assume n: "nodes g = []" and i: "index g = []" and e: "0 < \<epsilon>" and f: "0 < fuel"
  from f obtain m where m: "fuel = Suc m" by (cases fuel) auto
  have g: "g\<lparr>nodes := []\<rparr> = g" using n by simp
  have "rank_loop m \<alpha> \<epsilon> q \<lparr>st_nodes = [], st_a = a, st_b = b, st_Delta = 0, st_leak = l\<rparr>
      = Some (Inr \<lparr>st_nodes = [], st_a = a, st_b = b, st_Delta = 0, st_leak = l\<rparr>)" for q a b l
    using e by (cases m) simp_all
  then have "Rank_from q fuel \<alpha> \<epsilon> g = Some (Inr (g, []))" for q
    using n i g by (simp add: Rank_from_def m initialize_def iteration_def delta_of_def leak_of_def)
  then show ?thesis by (simp add: Rank_def)
qed

theorem Rank_no_nodes_witness:
  "nodes NewGraph64 = [] \<and> index NewGraph64 = [] \<and> (0::real) < 1 / 10 \<and> (0::nat) < 5 \<and>
   Rank 5 (85 / 100) (1 / 10) NewGraph64 = Some (Inr (NewGraph64, []))"
proof -
  have a: "nodes NewGraph64 = []" and b: "index NewGraph64 = []" by (simp_all add: NewGraph64_def)
  have c: "(0::real) < 1 / 10" and d: "(0::nat) < 5" by simp_all
  from Rank_no_nodes[OF a b c d, of "85 / 100"] a b c d show ?thesis by blast
qed

text \<open>
  Claim C7, on the code: the same two calls of \<open>Rank\<close>, on the graph of \<open>Link(1, 2, 2)\<close>,
  \<open>Link(2, 1, 2)\<close> with \<open>\<alpha> = 1/2\<close> and \<open>\<epsilon> = 1/10\<close>. The first call leaves node 1 with the
  outbound total 2 that \<open>Link\<close> gave it and with its edge weight divided by it, 1. The
  normalization pass of the second call finds the outbound total positive and divides the
  edge weight by it again: the edge weight of node 1 is then \<open>1/2\<close>, its edge weights sum to
  \<open>1/2\<close>, not to 1, and so the second call leaves them.
\<close>

theorem second_Rank_normalize:
  "Links [(1, 2, 2), (2, 1, 2)] NewGraph64 = Inr cycle_graph \<and>
   Rank 1 (1 / 2) (1 / 10) cycle_graph =
     Some (Inr (cycle_graph_ranked, [(1, 1 / 2), (2, 1 / 2)])) \<and>
   outbound (nodes cycle_graph_ranked ! 0) = 2 \<and>
   edges (nodes cycle_graph_ranked ! 0) = [(1, 1)] \<and>
   edges (map normalize (nodes cycle_graph_ranked) ! 0) = [(1, 1 / 2)] \<and>
   sum_list (map snd (edges (map normalize (nodes cycle_graph_ranked) ! 0))) = 1 / 2 \<and>
   Rank 4 (1 / 2) (1 / 10) cycle_graph_ranked =
     Some (Inr (cycle_graph_reranked, [(1, 175 / 512), (2, 175 / 512)])) \<and>
   edges (nodes cycle_graph_reranked ! 0) = [(1, 1 / 2)]"
proof -
  have a: "outbound (nodes cycle_graph_ranked ! 0) = 2"
    and b: "edges (nodes cycle_graph_ranked ! 0) = [(1, 1)]"
    and c: "edges (map normalize (nodes cycle_graph_ranked) ! 0) = [(1, 1 / 2)]"
    and d: "sum_list (map snd (edges (map normalize (nodes cycle_graph_ranked) ! 0))) = 1 / 2"
    by (simp_all add: cycle_graph_ranked_def normalize_def)
  have e: "edges (nodes cycle_graph_reranked ! 0) = [(1, 1 / 2)]"
    by (simp add: cycle_graph_reranked_def)
  show ?thesis
    using cycle_links cycle_first_run a b c d cycle_second_run e
    by (intro conjI)
qed

text \<open>
  Claim C8. On a graph built by \<open>Link\<close> calls, every further call
  \<open>Link(source, target, weight)\<close> returns without a panic, leaves both identifiers in the
  index, and adds \<open>weight\<close> both to the outbound total of the source and to the stored weight
  of the edge from source to target (a missing node or edge counting as 0 before the call).
  In particular \<open>Link(1, 2, 1.0)\<close> made twice on a new graph leaves the edge weight 2.
\<close>

theorem Link_accumulates:
  "Links ls NewGraph64 = Inr g \<Longrightarrow>
     (\<exists>g'. Link source target w g = Inr g' \<and>
        source \<in> fst ` set (index g') \<and> target \<in> fst ` set (index g') \<and>
        outbound_of g' source = outbound_of g source + w \<and>
        edge_of g' source target = edge_of g source target + w) \<and>
     (\<exists>g2. Links [(1, 2, 1), (1, 2, 1)] NewGraph64 = Inr g2 \<and> edge_of g2 1 2 = 2)"
proof -
  assume "Links ls NewGraph64 = Inr g"
  then have "graph_inv g" by (rule built)
  from Link_observed[OF this, of source target w] obtain g' where
    "Link source target w g = Inr g'"
    "source \<in> fst ` set (index g')" "target \<in> fst ` set (index g')"
    "outbound_of g' source = outbound_of g source + w"
    "edge_of g' source target = edge_of g source target + w" by (elim exE conjE)
  then have A: "\<exists>g'. Link source target w g = Inr g' \<and>
        source \<in> fst ` set (index g') \<and> target \<in> fst ` set (index g') \<and>
        outbound_of g' source = outbound_of g source + w \<and>
        edge_of g' source target = edge_of g source target + w"
    by (intro exI[of _ g'] conjI)
  have B: "\<exists>g2. Links [(1, 2, 1), (1, 2, 1)] NewGraph64 = Inr g2 \<and> edge_of g2 1 2 = 2"
    by (simp add: Link_def lookup_or_append_def NewGraph64_def Node64_zero_def edge_weight_def
        edge_of_def)
  from A B show ?thesis by (rule conjI)
qed

theorem Link_accumulates_witness:
  "Links [(1, 2, 1)] NewGraph64 =
     Inr \<lparr>Verbose = False, count = 2, index = [(1, 0), (2, 1)],
          nodes = [\<lparr>weight = (0, 0), outbound = 1, edges = [(1, 1)]\<rparr>,
                   \<lparr>weight = (0, 0), outbound = 0, edges = []\<rparr>]\<rparr> \<and>
   (\<exists>g'. Link 1 2 1 \<lparr>Verbose = False, count = 2, index = [(1, 0), (2, 1)],
          nodes = [\<lparr>weight = (0, 0), outbound = 1, edges = [(1, 1)]\<rparr>,
                   \<lparr>weight = (0, 0), outbound = 0, edges = []\<rparr>]\<rparr> = Inr g' \<and>
        outbound_of g' 1 = 2 \<and> edge_of g' 1 2 = 2)"
proof -
  let ?g = "\<lparr>Verbose = False, count = 2, index = [(1, 0), (2, 1)],
          nodes = [\<lparr>weight = (0, 0), outbound = 1, edges = [(1, 1)]\<rparr>,
                   \<lparr>weight = (0, 0), outbound = 0, edges = []\<rparr>]\<rparr>"
  have h: "Links [(1, 2, 1)] NewGraph64 = Inr ?g"
    by (simp add: Link_def lookup_or_append_def NewGraph64_def Node64_zero_def edge_weight_def)
  have o: "outbound_of ?g 1 = 1" "edge_of ?g 1 2 = 1"
    by (simp_all add: outbound_of_def edge_of_def edge_weight_def)
  from Link_accumulates[OF h, of 1 2 1, THEN conjunct1] obtain g' where
    "Link 1 2 1 ?g = Inr g'" "outbound_of g' 1 = outbound_of ?g 1 + 1"
    "edge_of g' 1 2 = edge_of ?g 1 2 + 1" by (elim exE conjE)
  then have "Link 1 2 1 ?g = Inr g' \<and> outbound_of g' 1 = 2 \<and> edge_of g' 1 2 = 2"
    unfolding o by simp
  then have "\<exists>g'. Link 1 2 1 ?g = Inr g' \<and> outbound_of g' 1 = 2 \<and> edge_of g' 1 2 = 2" ..
  with h show ?thesis by (rule conjI)
qed

text \<open>
  Claim C9. Build a \<open>Graph64\<close> and a \<open>Graph\<close> from the same list of (source, target,
  weight) triples by the \<open>Link\<close> calls of the two variants, and call \<open>Rank\<close> on each with the
  same \<open>\<alpha>\<close> and \<open>\<epsilon>\<close> (each variant run sequentially, exact arithmetic). Then for every bound
  on the number of turns either both loops are still running when the bound is reached, or
  both calls return without a panic and have made the same calls of the callback: the same
  identifiers with the same ranks.
\<close>

theorem variants_agree:
  "\<exists>g. Links ls NewGraph64 = Inr g \<and>
       (\<forall>fuel \<alpha> \<epsilon>.
          (Rank fuel \<alpha> \<epsilon> g = None \<and> Graph_Rank fuel \<alpha> \<epsilon> (Graph_Links ls New) = None) \<or>
          (\<exists>g' h' calls.
             Rank fuel \<alpha> \<epsilon> g = Some (Inr (g', calls)) \<and>
             Graph_Rank fuel \<alpha> \<epsilon> (Graph_Links ls New) = Some (Inr (h', calls))))"
proof -
  from Links_ok[OF graph_inv_New, of ls] obtain g where
    L: "Links ls NewGraph64 = Inr g" and inv: "graph_inv g" by (elim exE conjE)
  have fr: "fresh g" by (rule built(2)[OF L])
  have c: "corr g (Graph_Links ls New)" by (rule corr_Links[OF graph_inv_New corr_New L])
  have "\<forall>fuel \<alpha> \<epsilon>.
          (Rank fuel \<alpha> \<epsilon> g = None \<and> Graph_Rank fuel \<alpha> \<epsilon> (Graph_Links ls New) = None) \<or>
          (\<exists>g' h' calls.
             Rank fuel \<alpha> \<epsilon> g = Some (Inr (g', calls)) \<and>
             Graph_Rank fuel \<alpha> \<epsilon> (Graph_Links ls New) = Some (Inr (h', calls)))"
    using Rank_corr[OF inv fr c] by blast
  with L show ?thesis by (intro exI[of _ g] conjI)
qed

text \<open>
  Claim C10. Any sequence of \<open>Link\<close> calls on a new graph returns a graph (no call
  panics) in which every value of the index is below \<open>count\<close>, \<open>count\<close> is the length of
  the node slice, and every key of every edge map is a value of the index and below
  \<open>count\<close>. On such a graph \<open>Rank\<close> never takes the out-of-range branch of
  \<open>nodes[target]\<close> or \<open>nodes[value]\<close>, for any fuel, \<open>\<alpha>\<close> and \<open>\<epsilon>\<close>.
\<close>

theorem Link_keeps_indices_in_bounds:
  "\<exists>g. Links ls NewGraph64 = Inr g \<and>
       (\<forall>e \<in> set (index g). snd e < count g) \<and>
       count g = length (nodes g) \<and>
       (\<forall>node \<in> set (nodes g). \<forall>t \<in> fst ` set (edges node).
           t \<in> snd ` set (index g) \<and> t < count g) \<and>
       (\<forall>fuel \<alpha> \<epsilon> e. Rank fuel \<alpha> \<epsilon> g \<noteq> Some (Inl e))"
proof -
  from Links_ok[OF graph_inv_New, of ls] obtain g where
    L: "Links ls NewGraph64 = Inr g" and inv: "graph_inv g" by (elim exE conjE)
  have fr: "fresh g" by (rule built(2)[OF L])
  have a: "\<forall>e \<in> set (index g). snd e < count g" by (rule index_values_ok[OF inv])
  have b: "count g = length (nodes g)" using inv by (simp add: graph_inv_def)
  have vals: "snd ` set (index g) = {0..<count g}"
  proof -
    have "set (map snd (index g)) = set [0..<count g]" using inv by (simp add: graph_inv_def)
    then show ?thesis by simp
  qed
  have c: "\<forall>node \<in> set (nodes g). \<forall>t \<in> fst ` set (edges node).
           t \<in> snd ` set (index g) \<and> t < count g"
  proof (intro ballI)
    fix node t assume "node \<in> set (nodes g)" "t \<in> fst ` set (edges node)"
    with inv have "t < count g" unfolding graph_inv_def node_ok_def by blast
    then show "t \<in> snd ` set (index g) \<and> t < count g" unfolding vals by simp
  qed
  have d: "\<forall>fuel \<alpha> \<epsilon> e. Rank fuel \<alpha> \<epsilon> g \<noteq> Some (Inl e)"
    unfolding Rank_def using Rank_from_no_panic[OF inv fr] by blast
  show ?thesis by (intro exI[of _ g] conjI) (fact L a b c d)+
qed

theorem Link_keeps_indices_in_bounds_witness:
  "Links [(1, 2, 1)] NewGraph64 =
     Inr \<lparr>Verbose = False, count = 2, index = [(1, 0), (2, 1)],
          nodes = [\<lparr>weight = (0, 0), outbound = 1, edges = [(1, 1)]\<rparr>,
                   \<lparr>weight = (0, 0), outbound = 0, edges = []\<rparr>]\<rparr> \<and>
   Rank 3 (1 / 2) (1 / 10) \<lparr>Verbose = False, count = 2, index = [(1, 0), (2, 1)],
          nodes = [\<lparr>weight = (0, 0), outbound = 1, edges = [(1, 1)]\<rparr>,
                   \<lparr>weight = (0, 0), outbound = 0, edges = []\<rparr>]\<rparr> \<noteq> Some (Inl IndexOutOfRange)"
proof -
  let ?g = "\<lparr>Verbose = False, count = 2, index = [(1, 0), (2, 1)],
          nodes = [\<lparr>weight = (0, 0), outbound = 1, edges = [(1, 1)]\<rparr>,
                   \<lparr>weight = (0, 0), outbound = 0, edges = []\<rparr>]\<rparr>"
  have h: "Links [(1, 2, 1)] NewGraph64 = Inr ?g"
    by (simp add: Link_def lookup_or_append_def NewGraph64_def Node64_zero_def edge_weight_def)
  from Link_keeps_indices_in_bounds[of "[(1, 2, 1)]"] obtain g where
    "Links [(1, 2, 1)] NewGraph64 = Inr g"
    "\<forall>fuel \<alpha> \<epsilon> e. Rank fuel \<alpha> \<epsilon> g \<noteq> Some (Inl e)" by (elim exE conjE)
  with h have "Rank 3 (1 / 2) (1 / 10) ?g \<noteq> Some (Inl IndexOutOfRange)" by simp
  with h show ?thesis by (rule conjI)
qed

end
